theory Spec2Isabelle
  imports Main
begin

section \<open>Data model (types/git.ts, graphEngine.ts)\<close>

text \<open>
  JavaScript numbers that hold dates, lanes, counts and priorities are modelled as
  unbounded integers; row indices and hop distances, which only count upwards from
  zero, are natural numbers. Strings are lists of characters; a hash lookup table
  (a JavaScript \<open>Map\<close>) is a partial function.
\<close>

record CommitSummary =
  hash :: string
  author :: string
  message :: string
  date :: int
  parents :: "string list"

record BranchInfo =
  name :: string
  isCurrent :: bool
  isRemote :: bool
  targetHash :: "string option"

definition ROW_HEIGHT :: int where "ROW_HEIGHT = 46"
definition LANE_WIDTH :: int where "LANE_WIDTH = 14"
definition LANE_PADDING :: int where "LANE_PADDING = 8"
definition MAX_GRAPH_WIDTH :: int where "MAX_GRAPH_WIDTH = 196"

definition FLOW_WINDOW_MS :: int where "FLOW_WINDOW_MS = 1000 * 60 * 60 * 6"
definition FLOW_MAX_GROUP_SIZE :: int where "FLOW_MAX_GROUP_SIZE = 8"

record GraphEdge =
  fromRow :: nat
  toRow :: nat
  fromLane :: int
  toLane :: int

record GraphLayout =
  laneByRow :: "int list"
  edges :: "GraphEdge list"
  laneCount :: int
  laneStep :: int
  width :: int
  height :: int

datatype RelationKind = Merge | Revert | CherryPick

record FlowRelation =
  kind :: RelationKind
  label :: string
  count :: int

text \<open>The field \<open>id\<close> of a flow group is called \<open>groupId\<close> here.\<close>

record FlowGroup =
  groupId :: string
  lane :: int
  branchLabel :: string
  typeLabel :: string
  startedAt :: int
  endedAt :: int
  commits :: "CommitSummary list"
  relations :: "FlowRelation list"

text \<open>
  A JavaScript value of type \<open>string | undefined\<close> is truthy when it is a non-empty
  string.
\<close>

definition truthy :: "string option \<Rightarrow> bool" where
  "truthy v = (case v of None \<Rightarrow> False | Some s \<Rightarrow> s \<noteq> [])"

section \<open>Message classification (normalizedType, relationOf)\<close>

text \<open>
  The regular expressions of the source carry the flag \<open>i\<close> and no flag \<open>u\<close>, so a
  letter of the pattern matches exactly its two ASCII cases. \<open>\b\<close> after a letter holds
  at the end of the text or in front of a character that is not a letter, digit or
  underscore; \<open>\s\<close> is the white space of the character range modelled here.
\<close>

definition isUpperAscii :: "char \<Rightarrow> bool" where
  "isUpperAscii c = ((65::nat) \<le> of_char c \<and> of_char c \<le> (90::nat))"

definition isLowerAscii :: "char \<Rightarrow> bool" where
  "isLowerAscii c = ((97::nat) \<le> of_char c \<and> of_char c \<le> (122::nat))"

definition isLetter :: "char \<Rightarrow> bool" where
  "isLetter c = (isUpperAscii c \<or> isLowerAscii c)"

definition isDigit :: "char \<Rightarrow> bool" where
  "isDigit c = ((48::nat) \<le> of_char c \<and> of_char c \<le> (57::nat))"

definition isWordChar :: "char \<Rightarrow> bool" where
  "isWordChar c = (isLetter c \<or> isDigit c \<or> c = CHR ''_'')"

definition isSpaceChar :: "char \<Rightarrow> bool" where
  "isSpaceChar c = ((of_char c :: nat) \<in> {9, 10, 11, 12, 13, 32, 160})"

definition toLowerChar :: "char \<Rightarrow> char" where
  "toLowerChar c = (if isUpperAscii c then char_of (of_char c + (32::nat)) else c)"

definition toLowerCase :: "string \<Rightarrow> string" where
  "toLowerCase s = map toLowerChar s"

text \<open>\<open>startsWithCI w s\<close>: the lower-case word \<open>w\<close> matches at the start of \<open>s\<close> in any case.\<close>

definition startsWithCI :: "string \<Rightarrow> string \<Rightarrow> bool" where
  "startsWithCI w s = (length w \<le> length s \<and> toLowerCase (take (length w) s) = w)"

text \<open>\<open>/^merge\b/i\<close> and \<open>/^revert\b/i\<close>: the word, then a word boundary.\<close>

definition startsWithWord :: "string \<Rightarrow> string \<Rightarrow> bool" where
  "startsWithWord w s =
     (startsWithCI w s \<and>
      (case drop (length w) s of [] \<Rightarrow> True | c # _ \<Rightarrow> \<not> isWordChar c))"

text \<open>\<open>/cherry[\s-]?pick/i\<close> is not anchored: it is tried at every position.\<close>

definition cherryPickAt :: "string \<Rightarrow> bool" where
  "cherryPickAt s =
     (startsWithCI ''cherry'' s \<and>
      (let r = drop 6 s in
         (case r of
            [] \<Rightarrow> False
          | c # r' \<Rightarrow> ((isSpaceChar c \<or> c = CHR ''-'') \<and> startsWithCI ''pick'' r'))
         \<or> startsWithCI ''pick'' r))"

fun hasCherryPick :: "string \<Rightarrow> bool" where
  "hasCherryPick [] = False"
| "hasCherryPick (c # s) = (cherryPickAt (c # s) \<or> hasCherryPick s)"

text \<open>
  \<open>/^([a-z]+)(\([^)]+\))?!?:/i\<close>. The letters of group 1 are followed by \<open>(\<close>, \<open>!\<close> or
  \<open>:\<close>, none of them a letter, so group 1 is the longest run of letters at the start.
  The optional scope is \<open>(\<close>, one or more characters other than \<open>)\<close>, and \<open>)\<close>.
\<close>

definition bangColon :: "string \<Rightarrow> bool" where
  "bangColon s =
     (case s of
        [] \<Rightarrow> False
      | c # r \<Rightarrow> c = CHR '':'' \<or> (c = CHR ''!'' \<and> (case r of [] \<Rightarrow> False | d # _ \<Rightarrow> d = CHR '':'')))"

definition afterScope :: "string \<Rightarrow> string option" where
  "afterScope s =
     (case s of
        [] \<Rightarrow> None
      | c # r \<Rightarrow>
          if c = CHR ''(''
          then (let inner = takeWhile (\<lambda>x. x \<noteq> CHR '')'') r;
                    rest = dropWhile (\<lambda>x. x \<noteq> CHR '')'') r
                in if inner \<noteq> [] \<and> rest \<noteq> [] then Some (tl rest) else None)
          else None)"

definition conventional :: "string \<Rightarrow> string option" where
  "conventional msg =
     (let letters = takeWhile isLetter msg;
          rest = dropWhile isLetter msg
      in if letters \<noteq> [] \<and>
            ((case afterScope rest of None \<Rightarrow> False | Some r \<Rightarrow> bangColon r) \<or> bangColon rest)
         then Some letters else None)"

definition normalizedType :: "string \<Rightarrow> string" where
  "normalizedType msg =
     (case conventional msg of
        Some g \<Rightarrow> toLowerCase g
      | None \<Rightarrow>
          if startsWithWord ''merge'' msg then ''merge''
          else if startsWithWord ''revert'' msg then ''revert''
          else if hasCherryPick msg then ''cherry-pick''
          else ''commit'')"

definition relationOf :: "string \<Rightarrow> (RelationKind \<times> string) option" where
  "relationOf msg =
     (if startsWithWord ''merge'' msg then Some (Merge, ''Merge'')
      else if startsWithWord ''revert'' msg then Some (Revert, ''Revert'')
      else if hasCherryPick msg then Some (CherryPick, ''Cherry-pick'')
      else None)"

section \<open>Flow grouping (buildFlowGroups)\<close>

text \<open>
  The relation entry found by \<open>find\<close> is the first one of the kind; its count is
  incremented in place.
\<close>

fun bumpRelation :: "RelationKind \<Rightarrow> FlowRelation list \<Rightarrow> FlowRelation list" where
  "bumpRelation k [] = []"
| "bumpRelation k (r # rs) =
     (if kind r = k then r\<lparr>count := count r + 1\<rparr> # rs else r # bumpRelation k rs)"

definition addRelation :: "(RelationKind \<times> string) option \<Rightarrow> FlowRelation list \<Rightarrow> FlowRelation list" where
  "addRelation relation rs =
     (case relation of
        None \<Rightarrow> rs
      | Some (k, l) \<Rightarrow>
          (case find (\<lambda>item. kind item = k) rs of
             Some existing \<Rightarrow> bumpRelation k rs
           | None \<Rightarrow> rs @ [\<lparr>kind = k, label = l, count = 1\<rparr>]))"

definition canAppend :: "(CommitSummary \<Rightarrow> string) \<Rightarrow> FlowGroup list \<Rightarrow> CommitSummary \<Rightarrow> bool" where
  "canAppend resolveBranchLabel groups commit =
     (groups \<noteq> [] \<and>
      branchLabel (last groups) = resolveBranchLabel commit \<and>
      typeLabel (last groups) = normalizedType (message commit) \<and>
      int (length (commits (last groups))) < FLOW_MAX_GROUP_SIZE \<and>
      \<bar>endedAt (last groups) - date commit\<bar> \<le> FLOW_WINDOW_MS)"

definition newGroup :: "(string \<rightharpoonup> int) \<Rightarrow> (CommitSummary \<Rightarrow> string) \<Rightarrow> CommitSummary \<Rightarrow> FlowGroup" where
  "newGroup laneByHash resolveBranchLabel commit =
     \<lparr>groupId = hash commit,
      lane = (case laneByHash (hash commit) of Some l \<Rightarrow> l | None \<Rightarrow> 0),
      branchLabel = resolveBranchLabel commit,
      typeLabel = normalizedType (message commit),
      startedAt = date commit,
      endedAt = date commit,
      commits = [commit],
      relations = (case relationOf (message commit) of
                     Some (k, l) \<Rightarrow> [\<lparr>kind = k, label = l, count = 1\<rparr>]
                   | None \<Rightarrow> [])\<rparr>"

definition appendCommit :: "FlowGroup \<Rightarrow> CommitSummary \<Rightarrow> FlowGroup" where
  "appendCommit current commit =
     current\<lparr>commits := commits current @ [commit],
             endedAt := date commit,
             startedAt := max (startedAt current) (date commit),
             relations := addRelation (relationOf (message commit)) (relations current)\<rparr>"

text \<open>One pass of the loop body: the open group is the last element of \<open>groups\<close>.\<close>

definition flowStep ::
  "(string \<rightharpoonup> int) \<Rightarrow> (CommitSummary \<Rightarrow> string) \<Rightarrow> CommitSummary \<Rightarrow> FlowGroup list \<Rightarrow> FlowGroup list" where
  "flowStep laneByHash resolveBranchLabel commit groups =
     (if \<not> canAppend resolveBranchLabel groups commit
      then groups @ [newGroup laneByHash resolveBranchLabel commit]
      else butlast groups @ [appendCommit (last groups) commit])"

definition buildFlowGroups ::
  "CommitSummary list \<Rightarrow> (string \<rightharpoonup> int) \<Rightarrow> (CommitSummary \<Rightarrow> string) \<Rightarrow> FlowGroup list" where
  "buildFlowGroups cs laneByHash resolveBranchLabel =
     fold (flowStep laneByHash resolveBranchLabel) cs []"

section \<open>Graph layout (buildGraph)\<close>

text \<open>
  \<open>hashToRow\<close> and \<open>commitByHash\<close> are filled by \<open>forEach\<close> in row order, so a later
  commit with the same hash overwrites an earlier one.
\<close>

definition hashToRow :: "CommitSummary list \<Rightarrow> string \<rightharpoonup> nat" where
  "hashToRow items =
     fold (\<lambda>(index, commit) m. m(hash commit \<mapsto> index)) (enumerate 0 items) Map.empty"

definition commitByHash :: "CommitSummary list \<Rightarrow> string \<rightharpoonup> CommitSummary" where
  "commitByHash items = fold (\<lambda>commit m. m(hash commit \<mapsto> commit)) items Map.empty"

text \<open>\<open>commit.parents.find((parent) => hashToRow.has(parent))\<close>\<close>

definition firstVisibleParent :: "CommitSummary list \<Rightarrow> CommitSummary \<Rightarrow> string option" where
  "firstVisibleParent items commit =
     find (\<lambda>parent. hashToRow items parent \<noteq> None) (parents commit)"

definition childHashesByParent :: "CommitSummary list \<Rightarrow> string \<rightharpoonup> string list" where
  "childHashesByParent items =
     fold (\<lambda>commit m.
            fold (\<lambda>parent m.
                   if hashToRow items parent = None then m
                   else m(parent \<mapsto> (case m parent of None \<Rightarrow> [] | Some children \<Rightarrow> children)
                                       @ [hash commit]))
                 (parents commit) m)
          items Map.empty"

definition MAX_SAFE_INTEGER :: int where "MAX_SAFE_INTEGER = 9007199254740991"

text \<open>
  Each child list is sorted in place by row; the sort of the platform is stable, as is
  \<open>sort_key\<close>.
\<close>

definition sortedChildren :: "CommitSummary list \<Rightarrow> string \<rightharpoonup> string list" where
  "sortedChildren items parent =
     map_option
       (sort_key (\<lambda>h. case hashToRow items h of Some r \<Rightarrow> int r | None \<Rightarrow> MAX_SAFE_INTEGER))
       (childHashesByParent items parent)"

text \<open>
  The mainline walk. The set \<open>mainline\<close> is kept as the list of its members in insertion
  order. The loop is written as it stands, with no bound built in: a run that never
  leaves the loop is the value \<open>None\<close>.
\<close>

partial_function (option) mainlineWalk ::
  "CommitSummary list \<Rightarrow> string list \<Rightarrow> string \<Rightarrow> string list option" where
  "mainlineWalk items mainline cursor =
     (if cursor \<noteq> [] \<and> cursor \<notin> set mainline
      then (case commitByHash items cursor of
              None \<Rightarrow> Some (mainline @ [cursor])
            | Some commit \<Rightarrow>
                (case firstVisibleParent items commit of
                   None \<Rightarrow> Some (mainline @ [cursor])
                 | Some next \<Rightarrow>
                     if next = [] then Some (mainline @ [cursor])
                     else mainlineWalk items (mainline @ [cursor]) next))
      else Some mainline)"

declare mainlineWalk.simps [code]

definition mainlineOf :: "CommitSummary list \<Rightarrow> string list option" where
  "mainlineOf items =
     (if length items > 0 then mainlineWalk items [] (hash (items ! 0)) else Some [])"

definition primaryChildByParent :: "CommitSummary list \<Rightarrow> string list \<Rightarrow> string \<rightharpoonup> string" where
  "primaryChildByParent items mainline parentHash =
     (case sortedChildren items parentHash of
        None \<Rightarrow> None
      | Some children \<Rightarrow>
          if children = [] then None
          else (let onMainline = find (\<lambda>childHash. childHash \<in> set mainline) children
                in if truthy onMainline then onMainline
                   else (let firstParentChild =
                               find (\<lambda>childHash.
                                       case commitByHash items childHash of
                                         None \<Rightarrow> False
                                       | Some c \<Rightarrow> (case parents c of [] \<Rightarrow> False | p # _ \<Rightarrow> p = parentHash))
                                    children
                         in if truthy firstParentChild then firstParentChild
                            else Some (children ! 0))))"

text \<open>
  The variables of the lane-assignment loop. Rows are visited from the last to the
  first, so the assignment \<open>laneByRow[row] = lane\<close> puts the lane in front of the lanes
  of the later rows. The map \<open>laneByHash\<close> of the loop is the field \<open>hashLanes\<close>,
  \<open>laneByRow\<close> is \<open>rowLanes\<close> and \<open>laneCount\<close> is \<open>lanesUsed\<close>.
\<close>

record LaneState =
  rowLanes :: "int list"
  hashLanes :: "string \<rightharpoonup> int"
  lanesUsed :: int
  nextLane :: int

definition allocateLane :: "LaneState \<Rightarrow> int \<times> LaneState" where
  "allocateLane st =
     (nextLane st,
      st\<lparr>nextLane := nextLane st + 1, lanesUsed := max (lanesUsed st) (nextLane st + 1)\<rparr>)"

definition chooseLane ::
  "CommitSummary list \<Rightarrow> string list \<Rightarrow> CommitSummary \<Rightarrow> LaneState \<Rightarrow> int \<times> LaneState" where
  "chooseLane items mainline commit st =
     (if hash commit \<notin> set mainline
      then (case firstVisibleParent items commit of
              None \<Rightarrow> allocateLane st
            | Some firstParent \<Rightarrow>
                if firstParent = [] then allocateLane st
                else (let parentLane = (case hashLanes st firstParent of Some l \<Rightarrow> l | None \<Rightarrow> 0);
                          primaryChild = primaryChildByParent items mainline firstParent
                      in if primaryChild = Some (hash commit) \<and> parentLane \<noteq> 0
                         then (parentLane, st) else allocateLane st))
      else (0, st))"

definition assignLane ::
  "CommitSummary list \<Rightarrow> string list \<Rightarrow> CommitSummary \<Rightarrow> LaneState \<Rightarrow> LaneState" where
  "assignLane items mainline commit st =
     (case chooseLane items mainline commit st of
        (l, st') \<Rightarrow>
          st'\<lparr>hashLanes := (hashLanes st')(hash commit \<mapsto> l),
              rowLanes := l # rowLanes st',
              lanesUsed := max (lanesUsed st') (l + 1)\<rparr>)"

definition assignLanes :: "CommitSummary list \<Rightarrow> string list \<Rightarrow> LaneState" where
  "assignLanes items mainline =
     foldr (assignLane items mainline) items
       \<lparr>rowLanes = [], hashLanes = Map.empty, lanesUsed = 1, nextLane = 1\<rparr>"

definition edgesOfRow ::
  "CommitSummary list \<Rightarrow> LaneState \<Rightarrow> nat \<Rightarrow> CommitSummary \<Rightarrow> GraphEdge list" where
  "edgesOfRow items st row commit =
     (let fromLane = (case hashLanes st (hash commit) of
                        Some l \<Rightarrow> l
                      | None \<Rightarrow> if row < length (rowLanes st) then rowLanes st ! row else 0)
      in List.map_filter
           (\<lambda>parent.
              case hashToRow items parent of
                None \<Rightarrow> None
              | Some parentRow \<Rightarrow>
                  if parentRow \<le> row then None
                  else Some \<lparr>fromRow = row, toRow = parentRow, fromLane = fromLane,
                             toLane = (case hashLanes st parent of Some l \<Rightarrow> l | None \<Rightarrow> fromLane)\<rparr>)
           (parents commit))"

definition buildEdges :: "CommitSummary list \<Rightarrow> LaneState \<Rightarrow> GraphEdge list" where
  "buildEdges items st =
     concat (map (\<lambda>(row, commit). edgesOfRow items st row commit) (enumerate 0 items))"

definition laneStepOf :: "int \<Rightarrow> int" where
  "laneStepOf n =
     (if n \<le> 1 then LANE_WIDTH
      else min LANE_WIDTH
             (max 8 ((MAX_GRAPH_WIDTH - LANE_PADDING * 2 - LANE_WIDTH) div (n - 1))))"

definition buildGraph :: "CommitSummary list \<Rightarrow> GraphLayout option" where
  "buildGraph items =
     (case mainlineOf items of
        None \<Rightarrow> None
      | Some mainline \<Rightarrow>
          (let st = assignLanes items mainline
           in Some \<lparr>laneByRow = rowLanes st,
                    edges = buildEdges items st,
                    laneCount = lanesUsed st,
                    laneStep = laneStepOf (lanesUsed st),
                    width = LANE_PADDING * 2 + (lanesUsed st - 1) * laneStepOf (lanesUsed st)
                            + LANE_WIDTH,
                    height = int (length items) * ROW_HEIGHT\<rparr>))"

definition buildLaneByHashMap :: "CommitSummary list \<Rightarrow> GraphLayout \<Rightarrow> string \<rightharpoonup> int" where
  "buildLaneByHashMap items graph =
     fold (\<lambda>(row, commit) m.
            m(hash commit \<mapsto> (if row < length (laneByRow graph) then laneByRow graph ! row else 0)))
          (enumerate 0 items) Map.empty"

section \<open>Branch labels (buildFlowBranchLabelMap)\<close>

text \<open>The field \<open>label\<close> of an assignment is called \<open>branchName\<close> here.\<close>

record Assignment =
  branchName :: string
  priority :: int
  distance :: nat

definition priorityOf :: "BranchInfo \<Rightarrow> int" where
  "priorityOf b = (if isCurrent b then 0 else if isRemote b then 2 else 1)"

text \<open>
  \<open>localeCompare\<close> belongs to the platform and depends on its locale, so the
  comparison of two names is a parameter. The sort is stable; elements are inserted
  from the right, in front of the first element that does not come before them.
\<close>

definition compareBranches :: "(string \<Rightarrow> string \<Rightarrow> int) \<Rightarrow> BranchInfo \<Rightarrow> BranchInfo \<Rightarrow> int" where
  "compareBranches localeCompare a b =
     (if priorityOf a \<noteq> priorityOf b then priorityOf a - priorityOf b
      else localeCompare (name a) (name b))"

fun insertSorted :: "('a \<Rightarrow> 'a \<Rightarrow> int) \<Rightarrow> 'a \<Rightarrow> 'a list \<Rightarrow> 'a list" where
  "insertSorted cmp x [] = [x]"
| "insertSorted cmp x (y # ys) =
     (if cmp x y \<le> 0 then x # y # ys else y # insertSorted cmp x ys)"

definition sortWith :: "('a \<Rightarrow> 'a \<Rightarrow> int) \<Rightarrow> 'a list \<Rightarrow> 'a list" where
  "sortWith cmp xs = foldr (insertSorted cmp) xs []"

text \<open>\<open>branch.name.replace(/^origin\//, '')\<close>\<close>

definition stripOrigin :: "string \<Rightarrow> string" where
  "stripOrigin n = (if take 7 n = ''origin/'' then drop 7 n else n)"

definition labelOf :: "BranchInfo \<Rightarrow> string" where
  "labelOf b = (if isRemote b then stripOrigin (name b) else name b)"

definition recordAssignment ::
  "(string \<rightharpoonup> Assignment) \<Rightarrow> string \<Rightarrow> string \<Rightarrow> int \<Rightarrow> nat \<Rightarrow> (string \<rightharpoonup> Assignment)" where
  "recordAssignment assignments cursor lbl prio dist =
     (case assignments cursor of
        None \<Rightarrow> assignments(cursor \<mapsto> \<lparr>branchName = lbl, priority = prio, distance = dist\<rparr>)
      | Some existing \<Rightarrow>
          if prio < priority existing \<or> (prio = priority existing \<and> dist < distance existing)
          then assignments(cursor \<mapsto> \<lparr>branchName = lbl, priority = prio, distance = dist\<rparr>)
          else assignments)"

text \<open>
  The ancestry walk of one branch, again with no bound added by the model: the test
  on \<open>distance\<close> is the one of the source.
\<close>

partial_function (option) labelWalk ::
  "CommitSummary list \<Rightarrow> string \<Rightarrow> int \<Rightarrow> (string \<rightharpoonup> Assignment) \<Rightarrow> string list \<Rightarrow> string \<Rightarrow> nat
     \<Rightarrow> (string \<rightharpoonup> Assignment) option" where
  "labelWalk items lbl prio assignments seen cursor dist =
     (if cursor \<noteq> [] \<and> hashToRow items cursor \<noteq> None \<and> cursor \<notin> set seen
         \<and> dist \<le> length items + 8
      then (case (case commitByHash items cursor of
                    None \<Rightarrow> None
                  | Some commit \<Rightarrow> firstVisibleParent items commit) of
              None \<Rightarrow> Some (recordAssignment assignments cursor lbl prio dist)
            | Some next \<Rightarrow>
                if next = [] then Some (recordAssignment assignments cursor lbl prio dist)
                else labelWalk items lbl prio (recordAssignment assignments cursor lbl prio dist)
                       (seen @ [cursor]) next (dist + 1))
      else Some assignments)"

declare labelWalk.simps [code]

definition walkBranch ::
  "CommitSummary list \<Rightarrow> (string \<rightharpoonup> Assignment) \<Rightarrow> BranchInfo \<Rightarrow> (string \<rightharpoonup> Assignment) option" where
  "walkBranch items assignments branch =
     (case targetHash branch of
        None \<Rightarrow> Some assignments
      | Some tip \<Rightarrow>
          if tip = [] \<or> hashToRow items tip = None then Some assignments
          else labelWalk items (labelOf branch) (priorityOf branch) assignments [] tip 0)"

fun walkBranches ::
  "CommitSummary list \<Rightarrow> (string \<rightharpoonup> Assignment) \<Rightarrow> BranchInfo list \<Rightarrow> (string \<rightharpoonup> Assignment) option" where
  "walkBranches items assignments [] = Some assignments"
| "walkBranches items assignments (branch # rest) =
     (case walkBranch items assignments branch of
        None \<Rightarrow> None
      | Some assignments' \<Rightarrow> walkBranches items assignments' rest)"

definition buildFlowBranchLabelMap ::
  "(string \<Rightarrow> string \<Rightarrow> int) \<Rightarrow> CommitSummary list \<Rightarrow> BranchInfo list \<Rightarrow> (string \<rightharpoonup> string) option" where
  "buildFlowBranchLabelMap localeCompare items branchItems =
     (case walkBranches items Map.empty (sortWith (compareBranches localeCompare) branchItems) of
        None \<Rightarrow> None
      | Some assignments \<Rightarrow> Some (\<lambda>h. map_option branchName (assignments h)))"

section \<open>The mainline chain, in the words of the specification\<close>

text \<open>
  The chain starts at row 0 and repeatedly follows the first parent of the current
  commit that is present in the visible set. It is stated for comparison with the set
  computed by \<open>mainlineWalk\<close>.
\<close>

inductive onMainlineChain :: "CommitSummary list \<Rightarrow> string \<Rightarrow> bool" for items where
  start: "items \<noteq> [] \<Longrightarrow> onMainlineChain items (hash (items ! 0))"
| follow: "onMainlineChain items h \<Longrightarrow> commitByHash items h = Some c \<Longrightarrow>
           firstVisibleParent items c = Some p \<Longrightarrow> onMainlineChain items p"

section \<open>Example inputs\<close>

definition commitOf :: "string \<Rightarrow> string \<Rightarrow> int \<Rightarrow> string list \<Rightarrow> CommitSummary" where
  "commitOf h m d ps = \<lparr>hash = h, author = ''dev'', message = m, date = d, parents = ps\<rparr>"

text \<open>Two consecutive \<open>feat\<close> commits whose dates lie \<open>gap\<close> milliseconds apart.\<close>

definition featPair :: "int \<Rightarrow> CommitSummary list" where
  "featPair gap = [commitOf ''b2'' ''feat: add list'' (1700000000000 + gap) [''b1''],
                   commitOf ''b1'' ''feat: add item'' 1700000000000 []]"

definition diamond :: "CommitSummary list" where
  "diamond = [commitOf ''C0'' ''merge feature'' 400 [''C1'', ''C2''],
              commitOf ''C1'' ''main work'' 300 [''C3''],
              commitOf ''C2'' ''feature work'' 200 [''C3''],
              commitOf ''C3'' ''root'' 100 []]"

text \<open>A malformed history: two commits that name each other as parent.\<close>

definition cyclicPair :: "CommitSummary list" where
  "cyclicPair = [commitOf ''a'' ''one'' 2 [''b''], commitOf ''b'' ''two'' 1 [''a'']]"

text \<open>
  One comparison of names by character code, used in the examples; the general
  statements below hold for every comparison.
\<close>

fun codeUnitCompare :: "string \<Rightarrow> string \<Rightarrow> int" where
  "codeUnitCompare [] [] = 0"
| "codeUnitCompare [] (y # ys) = -1"
| "codeUnitCompare (x # xs) [] = 1"
| "codeUnitCompare (x # xs) (y # ys) =
     (if (of_char x :: nat) < of_char y then -1
      else if (of_char y :: nat) < of_char x then 1
      else codeUnitCompare xs ys)"

text \<open>A current local branch at the head of the diamond and a second local branch.\<close>

definition exampleBranches :: "BranchInfo list" where
  "exampleBranches =
     [\<lparr>name = ''feature'', isCurrent = False, isRemote = False, targetHash = Some ''C2''\<rparr>,
      \<lparr>name = ''main'', isCurrent = True, isRemote = False, targetHash = Some ''C0''\<rparr>]"

text \<open>Remote branches of the remote \<open>origin\<close> and of a remote called \<open>upstream\<close>.\<close>

definition originDev :: BranchInfo where
  "originDev = \<lparr>name = ''origin/dev'', isCurrent = False, isRemote = True, targetHash = Some ''C2''\<rparr>"

definition upstreamDev :: BranchInfo where
  "upstreamDev = \<lparr>name = ''upstream/dev'', isCurrent = False, isRemote = True, targetHash = Some ''C2''\<rparr>"

text \<open>Two merge commits one hour apart, and a commit whose message starts with \<open>Merged\<close>.\<close>

definition mergePair :: "CommitSummary list" where
  "mergePair = [commitOf ''m2'' ''Merge branch feature into main'' 1700003600000 [''m1'', ''f1''],
                commitOf ''m1'' ''Merge pull request 7'' 1700000000000 [''m0'', ''f0'']]"

definition mergedPR :: CommitSummary where
  "mergedPR = commitOf ''p1'' ''Merged PR 12: update list'' 1700000000000 [''p0'']"

text \<open>A \<open>feat\<close> commit followed, a day earlier, by a merge commit: two groups.\<close>

definition featThenMerge :: "CommitSummary list" where
  "featThenMerge = [commitOf ''f2'' ''feat: add list'' 1700090000000 [''f1''],
                    commitOf ''f1'' ''Merge branch topic'' 1700000000000 [''f0'', ''t0'']]"

section \<open>Invariants used in the proofs\<close>

text \<open>
  The lane-assignment loop keeps the next fresh lane at 1 or above and every stored
  lane at 0 or above.
\<close>

definition lanesOk :: "LaneState \<Rightarrow> bool" where
  "lanesOk st \<longleftrightarrow> 1 \<le> nextLane st \<and> (\<forall>h l. hashLanes st h = Some l \<longrightarrow> 0 \<le> l)"

text \<open>
  While the mainline walk runs, the first visible parent of every visited hash is
  visited too, or is the cursor.
\<close>

definition closedExcept :: "CommitSummary list \<Rightarrow> string list \<Rightarrow> string \<Rightarrow> bool" where
  "closedExcept items m cursor \<longleftrightarrow>
     (\<forall>h \<in> set m. \<forall>c p. commitByHash items h = Some c \<longrightarrow> firstVisibleParent items c = Some p
        \<longrightarrow> p \<noteq> [] \<longrightarrow> p \<in> set m \<or> p = cursor)"

text \<open>
  An assignment map in which no entry has priority 0: the state before the current
  branch has been walked.
\<close>

definition lowPriority :: "(string \<rightharpoonup> Assignment) \<Rightarrow> bool" where
  "lowPriority a \<longleftrightarrow> (\<forall>h x. a h = Some x \<longrightarrow> 1 \<le> priority x)"

text \<open>
  A group as \<open>buildFlowGroups\<close> leaves it: it is not empty, \<open>endedAt\<close> is the date of its
  last commit, \<open>startedAt\<close> is the greatest date in it, there is one relation entry for
  each kind that occurs, and the count of an entry is the number of commits of the
  group with that kind.
\<close>

definition kindOf :: "CommitSummary \<Rightarrow> RelationKind option" where
  "kindOf c = map_option fst (relationOf (message c))"

definition groupOk :: "FlowGroup \<Rightarrow> bool" where
  "groupOk g \<longleftrightarrow>
     commits g \<noteq> []
     \<and> endedAt g = date (last (commits g))
     \<and> startedAt g = Max (date ` set (commits g))
     \<and> distinct (map kind (relations g))
     \<and> (\<forall>rel \<in> set (relations g).
           count rel = int (length (filter (\<lambda>c. kindOf c = Some (kind rel)) (commits g))))
     \<and> (\<forall>c \<in> set (commits g). \<forall>k. kindOf c = Some k \<longrightarrow> k \<in> kind ` set (relations g))"

text \<open>
  Every commit of a group has the type of the group, and every relation entry of a
  group carries the kind and label of one of its commits.
\<close>

definition groupLabelled :: "FlowGroup \<Rightarrow> bool" where
  "groupLabelled g \<longleftrightarrow>
     (\<forall>c \<in> set (commits g). normalizedType (message c) = typeLabel g)
     \<and> (\<forall>rel \<in> set (relations g).
           \<exists>c \<in> set (commits g). relationOf (message c) = Some (kind rel, label rel))"

section \<open>The conventional-commit pattern\<close>

lemma punct_not_letter:
  "\<not> isLetter CHR ''(''" "\<not> isLetter CHR ''!''" "\<not> isLetter CHR '':''"
  by code_simp+

lemma takeWhile_letters:
  assumes "\<forall>c \<in> set g. isLetter c" and "r = [] \<or> \<not> isLetter (hd r)"
  shows "takeWhile isLetter (g @ r) = g \<and> dropWhile isLetter (g @ r) = r"
  using assms by (cases r) (auto simp: takeWhile_append2 dropWhile_append2)

lemma bangColon_iff:
  "bangColon s \<longleftrightarrow> (\<exists>bang rest. s = bang @ CHR '':'' # rest \<and> (bang = [] \<or> bang = ''!''))"
proof
  assume "bangColon s"
  then show "\<exists>bang rest. s = bang @ CHR '':'' # rest \<and> (bang = [] \<or> bang = ''!'')"
    by (auto simp: bangColon_def split: list.splits) (metis append_Cons append_Nil)
next
  assume "\<exists>bang rest. s = bang @ CHR '':'' # rest \<and> (bang = [] \<or> bang = ''!'')"
  then show "bangColon s" by (auto simp: bangColon_def)
qed

lemma afterScope_iff:
  "afterScope s = Some r \<longleftrightarrow>
     (\<exists>inner. inner \<noteq> [] \<and> CHR '')'' \<notin> set inner \<and> s = CHR ''('' # inner @ CHR '')'' # r)"
proof
  assume a: "afterScope s = Some r"
  then obtain t where s: "s = CHR ''('' # t" by (auto simp: afterScope_def split: list.splits if_splits)
  let ?i = "takeWhile (\<lambda>x. x \<noteq> CHR '')'') t" and ?d = "dropWhile (\<lambda>x. x \<noteq> CHR '')'') t"
  from a s have i: "?i \<noteq> []" and d: "?d \<noteq> []" and r: "r = tl ?d"
    by (auto simp: afterScope_def Let_def split: if_splits)
  from d have "hd ?d = CHR '')''" using hd_dropWhile[of "\<lambda>x. x \<noteq> CHR '')''" t] by auto
  with d r have "?d = CHR '')'' # r" by (cases ?d) auto
  then have "t = ?i @ CHR '')'' # r" using takeWhile_dropWhile_id[of "\<lambda>x. x \<noteq> CHR '')''" t] by simp
  moreover have "CHR '')'' \<notin> set ?i" by (auto dest: set_takeWhileD)
  ultimately show "\<exists>inner. inner \<noteq> [] \<and> CHR '')'' \<notin> set inner \<and> s = CHR ''('' # inner @ CHR '')'' # r"
    using i s by blast
next
  assume "\<exists>inner. inner \<noteq> [] \<and> CHR '')'' \<notin> set inner \<and> s = CHR ''('' # inner @ CHR '')'' # r"
  then obtain inner where i: "inner \<noteq> []" "CHR '')'' \<notin> set inner"
    and s: "s = CHR ''('' # inner @ CHR '')'' # r" by blast
  have "takeWhile (\<lambda>x. x \<noteq> CHR '')'') (inner @ CHR '')'' # r) = inner"
       "dropWhile (\<lambda>x. x \<noteq> CHR '')'') (inner @ CHR '')'' # r) = CHR '')'' # r"
  proof -
    have ne: "\<And>x. x \<in> set inner \<Longrightarrow> x \<noteq> CHR '')''" using i(2) by auto
    show "takeWhile (\<lambda>x. x \<noteq> CHR '')'') (inner @ CHR '')'' # r) = inner"
      by (simp add: takeWhile_append2[OF ne])
    show "dropWhile (\<lambda>x. x \<noteq> CHR '')'') (inner @ CHR '')'' # r) = CHR '')'' # r"
      by (simp add: dropWhile_append2[OF ne])
  qed
  then show "afterScope s = Some r" using i(1) s by (simp add: afterScope_def)
qed

text \<open>
  The matcher \<open>conventional\<close> accepts exactly the texts described by the regular
  expression: letters, an optional scope in parentheses, an optional \<open>!\<close>, a colon.
\<close>

lemma conventional_iff:
  "conventional msg = Some g \<longleftrightarrow>
     g \<noteq> [] \<and> (\<forall>c \<in> set g. isLetter c)
     \<and> (\<exists>scope bang rest.
           msg = g @ scope @ bang @ CHR '':'' # rest
           \<and> (scope = [] \<or> (\<exists>inner. inner \<noteq> [] \<and> CHR '')'' \<notin> set inner
                                 \<and> scope = CHR ''('' # inner @ '')''))
           \<and> (bang = [] \<or> bang = ''!''))"
  (is "?L \<longleftrightarrow> ?R")
proof
  assume L: ?L
  let ?g = "takeWhile isLetter msg" and ?r = "dropWhile isLetter msg"
  from L have g: "g = ?g" "?g \<noteq> []"
    and m: "(case afterScope ?r of None \<Rightarrow> False | Some r \<Rightarrow> bangColon r) \<or> bangColon ?r"
    by (auto simp: conventional_def Let_def split: if_splits)
  have msg: "msg = g @ ?r" using g by simp
  have letters: "\<forall>c \<in> set g. isLetter c" using g by (auto dest: set_takeWhileD)
  from m show ?R
  proof
    assume "case afterScope ?r of None \<Rightarrow> False | Some r \<Rightarrow> bangColon r"
    then obtain r where r: "afterScope ?r = Some r" "bangColon r" by (auto split: option.splits)
    from r(1) obtain inner where i: "inner \<noteq> []" "CHR '')'' \<notin> set inner"
      "?r = CHR ''('' # inner @ CHR '')'' # r" using afterScope_iff by blast
    from r(2) obtain bang rest where b: "r = bang @ CHR '':'' # rest" "bang = [] \<or> bang = ''!''"
      using bangColon_iff by blast
    have "msg = g @ (CHR ''('' # inner @ '')'') @ bang @ CHR '':'' # rest"
      using msg i(3) b(1) by simp
    then have "\<exists>scope bang rest.
           msg = g @ scope @ bang @ CHR '':'' # rest
           \<and> (scope = [] \<or> (\<exists>inner. inner \<noteq> [] \<and> CHR '')'' \<notin> set inner
                                 \<and> scope = CHR ''('' # inner @ '')''))
           \<and> (bang = [] \<or> bang = ''!'')"
      using i(1,2) b(2)
      by (intro exI[of _ "CHR ''('' # inner @ '')''"] exI[of _ bang] exI[of _ rest]) blast
    with g letters show ?R by simp
  next
    assume "bangColon ?r"
    then obtain bang rest where b: "?r = bang @ CHR '':'' # rest" "bang = [] \<or> bang = ''!''"
      using bangColon_iff by blast
    have "msg = g @ [] @ bang @ CHR '':'' # rest" using msg b(1) by simp
    then have "\<exists>scope bang rest.
           msg = g @ scope @ bang @ CHR '':'' # rest
           \<and> (scope = [] \<or> (\<exists>inner. inner \<noteq> [] \<and> CHR '')'' \<notin> set inner
                                 \<and> scope = CHR ''('' # inner @ '')''))
           \<and> (bang = [] \<or> bang = ''!'')"
      using b(2) by (intro exI[of _ "[]"] exI[of _ bang] exI[of _ rest]) blast
    with g letters show ?R by simp
  qed
next
  assume R: ?R
  then obtain scope bang rest where g: "g \<noteq> []" "\<forall>c \<in> set g. isLetter c"
    and msg: "msg = g @ scope @ bang @ CHR '':'' # rest"
    and sc: "scope = [] \<or> (\<exists>inner. inner \<noteq> [] \<and> CHR '')'' \<notin> set inner
                                 \<and> scope = CHR ''('' # inner @ '')'')"
    and bg: "bang = [] \<or> bang = ''!''" by blast
  let ?t = "scope @ bang @ CHR '':'' # rest"
  have "?t = [] \<or> \<not> isLetter (hd ?t)" using sc bg punct_not_letter by auto
  from takeWhile_letters[OF g(2) this] msg
  have tw: "takeWhile isLetter msg = g" "dropWhile isLetter msg = ?t" by simp_all
  have bc: "bangColon (bang @ CHR '':'' # rest)" using bg bangColon_iff by blast
  have "(case afterScope ?t of None \<Rightarrow> False | Some r \<Rightarrow> bangColon r) \<or> bangColon ?t"
  proof (cases "scope = []")
    case True
    then show ?thesis using bc by simp
  next
    case False
    then obtain inner where "inner \<noteq> []" "CHR '')'' \<notin> set inner" "scope = CHR ''('' # inner @ '')''"
      using sc by blast
    then have "afterScope ?t = Some (bang @ CHR '':'' # rest)"
      using afterScope_iff[of ?t "bang @ CHR '':'' # rest"] by auto
    then show ?thesis using bc by simp
  qed
  then show ?L using tw g(1) by (simp add: conventional_def)
qed

section \<open>Flow grouping: partition and the append-or-start rule\<close>

lemma commits_appendCommit: "commits (appendCommit g c) = commits g @ [c]"
  by (simp add: appendCommit_def)

lemma commits_newGroup: "commits (newGroup l r c) = [c]"
  by (simp add: newGroup_def)

lemma concat_flowStep:
  "concat (map commits (flowStep l r c gs)) = concat (map commits gs) @ [c]"
proof (cases "canAppend r gs c")
  case False
  then show ?thesis by (simp add: flowStep_def commits_newGroup)
next
  case True
  then have ne: "gs \<noteq> []" by (simp add: canAppend_def)
  have "concat (map commits gs) = concat (map commits (butlast gs @ [last gs]))"
    using ne by simp
  also have "\<dots> = concat (map commits (butlast gs)) @ commits (last gs)" by simp
  finally show ?thesis using True by (simp add: flowStep_def commits_appendCommit)
qed

lemma concat_fold_flowStep:
  "concat (map commits (fold (flowStep l r) cs gs)) = concat (map commits gs) @ cs"
  by (induction cs arbitrary: gs) (simp_all add: concat_flowStep)

lemma size_flowStep:
  assumes "\<forall>g \<in> set gs. length (commits g) \<le> 8"
  shows "\<forall>g \<in> set (flowStep l r c gs). length (commits g) \<le> 8"
proof (cases "canAppend r gs c")
  case False
  then show ?thesis using assms by (simp add: flowStep_def commits_newGroup)
next
  case True
  then have ne: "gs \<noteq> []" and lt: "length (commits (last gs)) < 8"
    by (simp_all add: canAppend_def FLOW_MAX_GROUP_SIZE_def)
  have "set (butlast gs) \<subseteq> set gs" by (auto dest: in_set_butlastD)
  then show ?thesis using True assms lt
    by (auto simp: flowStep_def commits_appendCommit)
qed

lemma size_fold_flowStep:
  "\<forall>g \<in> set gs. length (commits g) \<le> 8 \<Longrightarrow>
   \<forall>g \<in> set (fold (flowStep l r) cs gs). length (commits g) \<le> 8"
proof (induction cs arbitrary: gs)
  case Nil then show ?case by simp
next
  case (Cons c cs)
  show ?case using Cons.IH[OF size_flowStep[OF Cons.prems]] by simp
qed

text \<open>
  Claim C1. For every commit sequence, lane map and label resolver, the \<open>commits\<close>
  fields of the groups returned by \<open>buildFlowGroups\<close>, concatenated in group order, are
  the input sequence, and no group holds more than 8 commits.
\<close>

theorem flow_groups_partition:
  "concat (map commits (buildFlowGroups cs laneByHash resolveBranchLabel)) = cs \<and>
   (\<forall>g \<in> set (buildFlowGroups cs laneByHash resolveBranchLabel). length (commits g) \<le> 8)"
  using concat_fold_flowStep[of laneByHash resolveBranchLabel cs "[]"]
        size_fold_flowStep[of "[]" laneByHash resolveBranchLabel cs]
  by (simp add: buildFlowGroups_def)

lemma buildFlowGroups_snoc:
  "buildFlowGroups (cs @ [c]) l r = flowStep l r c (buildFlowGroups cs l r)"
  by (simp add: buildFlowGroups_def)

lemma canAppend_iff:
  "canAppend r gs c \<longleftrightarrow>
     (gs \<noteq> [] \<and> branchLabel (last gs) = r c \<and> typeLabel (last gs) = normalizedType (message c)
      \<and> length (commits (last gs)) < 8 \<and> \<bar>endedAt (last gs) - date c\<bar> \<le> 21600000)"
  by (simp add: canAppend_def FLOW_MAX_GROUP_SIZE_def FLOW_WINDOW_MS_def)

lemma flowStep_append:
  assumes "canAppend r gs c"
  shows "flowStep l r c gs = butlast gs @ [appendCommit (last gs) c]"
  using assms by (simp add: flowStep_def)

lemma flowStep_start:
  assumes "\<not> canAppend r gs c"
  shows "flowStep l r c gs = gs @ [newGroup l r c]"
  using assms by (simp add: flowStep_def)

lemma two_commits_groups:
  "buildFlowGroups [c1, c2] l r =
     (if r c1 = r c2 \<and> normalizedType (message c1) = normalizedType (message c2)
         \<and> \<bar>date c1 - date c2\<bar> \<le> 21600000
      then [appendCommit (newGroup l r c1) c2]
      else [newGroup l r c1, newGroup l r c2])"
  by (simp add: buildFlowGroups_def flowStep_def canAppend_iff newGroup_def)

text \<open>
  Claim C5. Processing one more commit \<open>c\<close> after the commits \<open>cs\<close>: when a group is
  open and has the label and type of \<open>c\<close>, fewer than 8 commits, and an \<open>endedAt\<close> within
  6 hours (in milliseconds) of the date of \<open>c\<close>, the commit is appended to the open
  group and no group is added; in every other case a new group is started, with the
  hash of \<open>c\<close> as its id and the lane of \<open>c\<close>. Two commits of equal type and label form
  one group when their dates are 10 minutes apart and two groups when they are 8 hours
  apart.
\<close>

theorem append_or_start_rule:
  "(let gs = buildFlowGroups cs laneByHash resolveBranchLabel;
        gs' = buildFlowGroups (cs @ [c]) laneByHash resolveBranchLabel
    in if gs \<noteq> [] \<and> branchLabel (last gs) = resolveBranchLabel c
          \<and> typeLabel (last gs) = normalizedType (message c)
          \<and> length (commits (last gs)) < 8
          \<and> \<bar>endedAt (last gs) - date c\<bar> \<le> 6 * 60 * 60 * 1000
       then length gs' = length gs \<and> butlast gs' = butlast gs
            \<and> commits (last gs') = commits (last gs) @ [c]
            \<and> groupId (last gs') = groupId (last gs) \<and> lane (last gs') = lane (last gs)
       else gs' = gs @ [last gs'] \<and> commits (last gs') = [c]
            \<and> groupId (last gs') = hash c
            \<and> lane (last gs') = (case laneByHash (hash c) of Some n \<Rightarrow> n | None \<Rightarrow> 0))
   \<and> (normalizedType (message c1) = normalizedType (message c2)
        \<and> resolveBranchLabel c1 = resolveBranchLabel c2
      \<longrightarrow> (\<bar>date c1 - date c2\<bar> = 10 * 60 * 1000
            \<longrightarrow> length (buildFlowGroups [c1, c2] laneByHash resolveBranchLabel) = 1)
        \<and> (\<bar>date c1 - date c2\<bar> = 8 * 60 * 60 * 1000
            \<longrightarrow> length (buildFlowGroups [c1, c2] laneByHash resolveBranchLabel) = 2))"
proof -
  let ?gs = "buildFlowGroups cs laneByHash resolveBranchLabel"
  let ?gs' = "buildFlowGroups (cs @ [c]) laneByHash resolveBranchLabel"
  have step: "?gs' = flowStep laneByHash resolveBranchLabel c ?gs"
    by (rule buildFlowGroups_snoc)
  have A: "canAppend resolveBranchLabel ?gs c \<Longrightarrow>
        length ?gs' = length ?gs \<and> butlast ?gs' = butlast ?gs
        \<and> commits (last ?gs') = commits (last ?gs) @ [c]
        \<and> groupId (last ?gs') = groupId (last ?gs) \<and> lane (last ?gs') = lane (last ?gs)"
  proof -
    assume ca: "canAppend resolveBranchLabel ?gs c"
    then have ne: "?gs \<noteq> []" by (simp add: canAppend_def)
    have "?gs' = butlast ?gs @ [appendCommit (last ?gs) c]"
      using step flowStep_append[OF ca] by simp
    then show ?thesis using ne by (simp add: appendCommit_def)
  qed
  have B: "\<not> canAppend resolveBranchLabel ?gs c \<Longrightarrow>
        ?gs' = ?gs @ [last ?gs'] \<and> commits (last ?gs') = [c] \<and> groupId (last ?gs') = hash c
        \<and> lane (last ?gs') = (case laneByHash (hash c) of Some n \<Rightarrow> n | None \<Rightarrow> 0)"
  proof -
    assume "\<not> canAppend resolveBranchLabel ?gs c"
    then have "?gs' = ?gs @ [newGroup laneByHash resolveBranchLabel c]"
      using step flowStep_start by simp
    then show ?thesis by (simp add: newGroup_def)
  qed
  have C: "normalizedType (message c1) = normalizedType (message c2)
        \<and> resolveBranchLabel c1 = resolveBranchLabel c2
      \<longrightarrow> (\<bar>date c1 - date c2\<bar> = 10 * 60 * 1000
            \<longrightarrow> length (buildFlowGroups [c1, c2] laneByHash resolveBranchLabel) = 1)
        \<and> (\<bar>date c1 - date c2\<bar> = 8 * 60 * 60 * 1000
            \<longrightarrow> length (buildFlowGroups [c1, c2] laneByHash resolveBranchLabel) = 2)"
    by (simp add: two_commits_groups)
  have D: "canAppend resolveBranchLabel ?gs c \<longleftrightarrow>
     (?gs \<noteq> [] \<and> branchLabel (last ?gs) = resolveBranchLabel c
          \<and> typeLabel (last ?gs) = normalizedType (message c)
          \<and> length (commits (last ?gs)) < 8
          \<and> \<bar>endedAt (last ?gs) - date c\<bar> \<le> 6 * 60 * 60 * 1000)"
    by (simp add: canAppend_iff)
  show ?thesis
  proof (cases "canAppend resolveBranchLabel ?gs c")
    case True
    from A[OF True] True C show ?thesis
      unfolding Let_def D[symmetric] by (simp only: if_True simp_thms)
  next
    case False
    from B[OF False] False C show ?thesis
      unfolding Let_def D[symmetric] by (simp only: if_False simp_thms)
  qed
qed

theorem flow_groups_partition_witness:
  "hd (buildFlowGroups (featPair 600000) Map.empty (\<lambda>_. ''main''))
     \<in> set (buildFlowGroups (featPair 600000) Map.empty (\<lambda>_. ''main''))
   \<and> concat (map commits (buildFlowGroups (featPair 600000) Map.empty (\<lambda>_. ''main''))) = featPair 600000
   \<and> length (commits (hd (buildFlowGroups (featPair 600000) Map.empty (\<lambda>_. ''main'')))) \<le> 8"
proof -
  have "map groupId (buildFlowGroups (featPair 600000) Map.empty (\<lambda>_. ''main'')) = [''b2'']"
    by code_simp
  then have "buildFlowGroups (featPair 600000) Map.empty (\<lambda>_. ''main'') \<noteq> []" by auto
  then have "hd (buildFlowGroups (featPair 600000) Map.empty (\<lambda>_. ''main''))
     \<in> set (buildFlowGroups (featPair 600000) Map.empty (\<lambda>_. ''main''))" by simp
  then show ?thesis
    using flow_groups_partition[of "featPair 600000" Map.empty "\<lambda>_. ''main''"] by blast
qed

theorem append_or_start_rule_witness:
  "length (buildFlowGroups (featPair 600000) Map.empty (\<lambda>_. ''main'')) = 1
   \<and> length (buildFlowGroups (featPair 28800000) Map.empty (\<lambda>_. ''main'')) = 2
   \<and> commits (last (buildFlowGroups (featPair 600000) Map.empty (\<lambda>_. ''main''))) = featPair 600000
   \<and> groupId (last (buildFlowGroups (featPair 28800000) Map.empty (\<lambda>_. ''main''))) = ''b1''"
proof -
  let ?c1 = "commitOf ''b2'' ''feat: add list'' (1700000000000 + 600000) [''b1'']"
  let ?c1' = "commitOf ''b2'' ''feat: add list'' (1700000000000 + 28800000) [''b1'']"
  let ?c2 = "commitOf ''b1'' ''feat: add item'' 1700000000000 []"
  let ?r = "\<lambda>_::CommitSummary. ''main''"
  have ty: "normalizedType (message ?c1) = normalizedType (message ?c2)"
           "normalizedType (message ?c1') = normalizedType (message ?c2)"
    by code_simp+
  have d: "\<bar>date ?c1 - date ?c2\<bar> = 10 * 60 * 1000" "\<bar>date ?c1' - date ?c2\<bar> = 8 * 60 * 60 * 1000"
    by (simp_all add: commitOf_def)
  have one: "buildFlowGroups [?c1] Map.empty ?r = [newGroup Map.empty ?r ?c1]"
            "buildFlowGroups [?c1'] Map.empty ?r = [newGroup Map.empty ?r ?c1']"
    by (simp_all add: buildFlowGroups_def flowStep_def canAppend_def)
  have a: "length (buildFlowGroups [?c1, ?c2] Map.empty ?r) = 1"
    using append_or_start_rule[of "[?c1]" Map.empty ?r ?c2 ?c1 ?c2] ty d by simp
  have b: "length (buildFlowGroups [?c1', ?c2] Map.empty ?r) = 2"
    using append_or_start_rule[of "[?c1']" Map.empty ?r ?c2 ?c1' ?c2] ty d by simp
  have c: "commits (last (buildFlowGroups [?c1, ?c2] Map.empty ?r)) = [?c1, ?c2]"
    using append_or_start_rule[of "[?c1]" Map.empty ?r ?c2 ?c1 ?c2] ty d one
    by (simp add: newGroup_def commitOf_def Let_def)
  have e: "groupId (last (buildFlowGroups [?c1', ?c2] Map.empty ?r)) = ''b1''"
    using append_or_start_rule[of "[?c1']" Map.empty ?r ?c2 ?c1' ?c2] ty d one
    by (simp add: newGroup_def commitOf_def Let_def)
  show ?thesis using a b c e by (simp add: featPair_def)
qed

section \<open>Lookup tables and the mainline walk\<close>

lemma hashToRow_fold:
  "fold (\<lambda>(index, commit) m. m(hash commit \<mapsto> index)) (enumerate n xs) m0 h = Some r \<Longrightarrow>
     m0 h = Some r \<or> (n \<le> r \<and> r < n + length xs \<and> hash (xs ! (r - n)) = h)"
proof (induction xs arbitrary: n m0)
  case Nil then show ?case by simp
next
  case (Cons x xs)
  from Cons.prems have
    "fold (\<lambda>(index, commit) m. m(hash commit \<mapsto> index)) (enumerate (Suc n) xs) (m0(hash x \<mapsto> n)) h = Some r"
    by (simp del: fun_upd_apply)
  from Cons.IH[OF this] show ?case
  proof
    assume "(m0(hash x \<mapsto> n)) h = Some r"
    then show ?thesis by (auto split: if_splits)
  next
    assume a: "Suc n \<le> r \<and> r < Suc n + length xs \<and> hash (xs ! (r - Suc n)) = h"
    then have "r - n = Suc (r - Suc n)" by arith
    with a show ?thesis by auto
  qed
qed

lemma hashToRow_Some:
  "hashToRow items h = Some r \<Longrightarrow> r < length items \<and> hash (items ! r) = h"
  using hashToRow_fold[of 0 items Map.empty h r] by (simp add: hashToRow_def)

lemma hashToRow_fold_dom:
  "fold (\<lambda>(index, commit) m. m(hash commit \<mapsto> index)) (enumerate n xs) m0 h \<noteq> None \<longleftrightarrow>
     m0 h \<noteq> None \<or> h \<in> hash ` set xs"
  by (induction xs arbitrary: n m0) auto

lemma hashToRow_dom: "hashToRow items h \<noteq> None \<longleftrightarrow> h \<in> hash ` set items"
  using hashToRow_fold_dom[of 0 items Map.empty h] by (simp add: hashToRow_def)

lemma commitByHash_fold:
  "fold (\<lambda>commit m. m(hash commit \<mapsto> commit)) xs m0 h = Some c \<Longrightarrow>
     m0 h = Some c \<or> (c \<in> set xs \<and> hash c = h)"
  by (induction xs arbitrary: m0) (fastforce split: if_splits)+

lemma commitByHash_Some: "commitByHash items h = Some c \<Longrightarrow> c \<in> set items \<and> hash c = h"
  using commitByHash_fold[of items Map.empty h c] by (simp add: commitByHash_def)

lemma commitByHash_fold_dom:
  "fold (\<lambda>commit m. m(hash commit \<mapsto> commit)) xs m0 h \<noteq> None \<longleftrightarrow>
     m0 h \<noteq> None \<or> h \<in> hash ` set xs"
  by (induction xs arbitrary: m0) auto

lemma commitByHash_dom: "commitByHash items h \<noteq> None \<longleftrightarrow> h \<in> hash ` set items"
  using commitByHash_fold_dom[of items Map.empty h] by (simp add: commitByHash_def)

lemma firstVisibleParent_Some:
  "firstVisibleParent items c = Some p \<Longrightarrow> p \<in> set (parents c) \<and> p \<in> hash ` set items"
  unfolding firstVisibleParent_def
  by (auto simp: find_Some_iff hashToRow_dom[symmetric] simp del: not_None_eq)

text \<open>Induction along the mainline walk: the unvisited visible hashes shrink.\<close>

lemma mainlineWalk_induct [consumes 0, case_names step]:
  assumes step: "\<And>mainline cursor.
     (\<And>commit next. cursor \<noteq> [] \<Longrightarrow> cursor \<notin> set mainline \<Longrightarrow>
        commitByHash items cursor = Some commit \<Longrightarrow>
        firstVisibleParent items commit = Some next \<Longrightarrow> next \<noteq> [] \<Longrightarrow>
        P (mainline @ [cursor]) next) \<Longrightarrow> P mainline cursor"
  shows "P mainline cursor"
proof (induction "card (hash ` set items - set mainline)" arbitrary: mainline cursor rule: less_induct)
  case (less mainline cursor)
  show ?case
  proof (rule step)
    fix commit nxt
    assume a: "cursor \<noteq> []" "cursor \<notin> set mainline" "commitByHash items cursor = Some commit"
      and b: "firstVisibleParent items commit = Some nxt" "nxt \<noteq> []"
    from a have mem: "cursor \<in> hash ` set items - set mainline"
      using commitByHash_dom[of items cursor] by simp
    have fin: "finite (hash ` set items - set mainline)" by simp
    have "hash ` set items - set (mainline @ [cursor])
                   = (hash ` set items - set mainline) - {cursor}" by auto
    with card_Diff1_less[OF fin mem]
    have "card (hash ` set items - set (mainline @ [cursor]))
                     < card (hash ` set items - set mainline)"
      by simp
    then show "P (mainline @ [cursor]) nxt" by (rule less)
  qed
qed

lemma mainlineWalk_total: "\<exists>r. mainlineWalk items mainline cursor = Some r"
proof (induction mainline cursor rule: mainlineWalk_induct[where items = items])
  case (step mainline cursor)
  show ?case
    by (subst mainlineWalk.simps) (auto split: option.splits intro: step)
qed

lemma mainlineOf_total: "\<exists>m. mainlineOf items = Some m"
  by (simp add: mainlineOf_def mainlineWalk_total)

lemma mainlineWalk_cases:
  assumes "mainlineWalk items m cursor = Some r"
  obtains (stop) "r = m" "cursor = [] \<or> cursor \<in> set m"
  | (last) "r = m @ [cursor]" "cursor \<noteq> []" "cursor \<notin> set m"
      "\<forall>c p. commitByHash items cursor = Some c \<longrightarrow> firstVisibleParent items c = Some p \<longrightarrow> p = []"
  | (more) c nxt where "cursor \<noteq> []" "cursor \<notin> set m" "commitByHash items cursor = Some c"
      "firstVisibleParent items c = Some nxt" "nxt \<noteq> []"
      "mainlineWalk items (m @ [cursor]) nxt = Some r"
  using assms
  by (subst (asm) mainlineWalk.simps) (auto split: if_splits option.splits)

lemma mainlineWalk_sound:
  assumes "mainlineWalk items m cursor = Some r"
    and "\<forall>h \<in> set m. onMainlineChain items h" and "onMainlineChain items cursor"
  shows "\<forall>h \<in> set r. onMainlineChain items h"
  using assms
proof (induction m cursor rule: mainlineWalk_induct[where items = items])
  case (step m cursor)
  from step.prems(1) show ?case
  proof (cases rule: mainlineWalk_cases)
    case stop
    then show ?thesis using step.prems by simp
  next
    case last
    then show ?thesis using step.prems by simp
  next
    case (more c nxt)
    have "onMainlineChain items nxt"
      using step.prems(3) more(3,4) by (rule onMainlineChain.follow)
    moreover have "\<forall>h \<in> set (m @ [cursor]). onMainlineChain items h"
      using step.prems by simp
    ultimately show ?thesis
      using step.IH[OF more(1-5) more(6)] by blast
  qed
qed

lemma mainlineWalk_closed:
  assumes "mainlineWalk items m cursor = Some r" and "closedExcept items m cursor"
  shows "set m \<subseteq> set r \<and> (cursor \<noteq> [] \<longrightarrow> cursor \<in> set r)
         \<and> (\<forall>h \<in> set r. \<forall>c p. commitByHash items h = Some c \<longrightarrow>
               firstVisibleParent items c = Some p \<longrightarrow> p \<noteq> [] \<longrightarrow> p \<in> set r)"
  using assms
proof (induction m cursor rule: mainlineWalk_induct[where items = items])
  case (step m cursor)
  from step.prems(1) show ?case
  proof (cases rule: mainlineWalk_cases)
    case stop
    then show ?thesis using step.prems(2) unfolding closedExcept_def by auto
  next
    case last
    then show ?thesis using step.prems(2) unfolding closedExcept_def by auto
  next
    case (more c nxt)
    have "closedExcept items (m @ [cursor]) nxt"
      using step.prems(2) more(3,4) unfolding closedExcept_def by auto
    from step.IH[OF more(1-5) more(6) this] show ?thesis by auto
  qed
qed

lemma mainlineWalk_distinct:
  assumes "mainlineWalk items m cursor = Some r" and "distinct m" and "set m \<subseteq> hash ` set items"
  shows "distinct r \<and> set r \<subseteq> hash ` set items \<union> {cursor}"
  using assms
proof (induction m cursor rule: mainlineWalk_induct[where items = items])
  case (step m cursor)
  from step.prems(1) show ?case
  proof (cases rule: mainlineWalk_cases)
    case stop
    then show ?thesis using step.prems by auto
  next
    case last
    then show ?thesis using step.prems by auto
  next
    case (more c nxt)
    have "cursor \<in> hash ` set items" using more(3) commitByHash_dom[of items cursor] by simp
    moreover have "nxt \<in> hash ` set items" using firstVisibleParent_Some[OF more(4)] by simp
    ultimately show ?thesis
      using step.IH[OF more(1-5) more(6)] step.prems(2,3) more(2) by auto
  qed
qed

lemma mainlineOf_chain:
  assumes m: "mainlineOf items = Some m" and ne: "\<forall>c \<in> set items. hash c \<noteq> []"
  shows "onMainlineChain items h \<longleftrightarrow> h \<in> set m"
proof (cases "items = []")
  case True
  then have "\<not> onMainlineChain items h" for h
    by (auto elim: onMainlineChain.induct)
  then show ?thesis using m True by (simp add: mainlineOf_def)
next
  case False
  then have w: "mainlineWalk items [] (hash (items ! 0)) = Some m"
    using m by (simp add: mainlineOf_def)
  have "items ! 0 \<in> set items" using False by simp
  then have h0: "hash (items ! 0) \<noteq> []" using ne by blast
  have snd: "\<forall>h \<in> set m. onMainlineChain items h"
    using mainlineWalk_sound[OF w] onMainlineChain.start[OF False] by simp
  have cl: "hash (items ! 0) \<in> set m"
    "\<And>h c p. h \<in> set m \<Longrightarrow> commitByHash items h = Some c \<Longrightarrow>
       firstVisibleParent items c = Some p \<Longrightarrow> p \<noteq> [] \<Longrightarrow> p \<in> set m"
    using mainlineWalk_closed[OF w] h0 by (auto simp: closedExcept_def)
  have "onMainlineChain items h \<Longrightarrow> h \<in> set m"
  proof (induction rule: onMainlineChain.induct)
    case start
    show ?case by (rule cl(1))
  next
    case (follow h c p)
    from firstVisibleParent_Some[OF follow(3)] ne have "p \<noteq> []" by auto
    with follow cl(2) show ?case by blast
  qed
  with snd show ?thesis by blast
qed

section \<open>Lanes and edges\<close>

lemma in_set_enumerate0:
  "(row, commit) \<in> set (enumerate 0 items) \<Longrightarrow> row < length items \<and> commit = items ! row"
  by (auto simp: in_set_enumerate_eq)

lemma set_map_filterD:
  "y \<in> set (List.map_filter f xs) \<Longrightarrow> \<exists>x \<in> set xs. f x = Some y"
  by (induction xs) (auto split: option.splits)

lemma edgesOfRow_sound:
  assumes "e \<in> set (edgesOfRow items st row commit)"
  shows "fromRow e = row \<and> fromRow e < toRow e \<and> toRow e < length items
         \<and> hash (items ! toRow e) \<in> set (parents commit)"
proof -
  from assms obtain parent pr where p: "parent \<in> set (parents commit)"
    and r: "hashToRow items parent = Some pr" and gt: "\<not> pr \<le> row"
    and e: "fromRow e = row" "toRow e = pr"
    unfolding edgesOfRow_def Let_def
    by (fastforce dest!: set_map_filterD split: option.splits if_splits)
  from hashToRow_Some[OF r] p gt e show ?thesis by auto
qed

lemma buildEdges_sound:
  assumes "e \<in> set (buildEdges items st)"
  shows "fromRow e < toRow e \<and> toRow e < length items
         \<and> hash (items ! toRow e) \<in> set (parents (items ! fromRow e))"
proof -
  from assms obtain row commit where rc: "(row, commit) \<in> set (enumerate 0 items)"
    and e: "e \<in> set (edgesOfRow items st row commit)"
    by (auto simp: buildEdges_def)
  from in_set_enumerate0[OF rc] edgesOfRow_sound[OF e] show ?thesis by auto
qed

lemma buildGraph_Some:
  "mainlineOf items = Some m \<Longrightarrow>
   \<exists>g. buildGraph items = Some g \<and> laneByRow g = rowLanes (assignLanes items m)
        \<and> edges g = buildEdges items (assignLanes items m)"
  by (simp add: buildGraph_def Let_def)

lemma allocateLane_ok:
  "lanesOk st \<Longrightarrow> allocateLane st = (l, st') \<Longrightarrow>
     1 \<le> l \<and> lanesOk st' \<and> rowLanes st' = rowLanes st \<and> hashLanes st' = hashLanes st"
  by (auto simp: allocateLane_def lanesOk_def)

lemma chooseLane_ok:
  assumes ok: "lanesOk st" and ch: "chooseLane items m commit st = (l, st')"
  shows "lanesOk st' \<and> rowLanes st' = rowLanes st \<and> hashLanes st' = hashLanes st
         \<and> (hash commit \<in> set m \<longrightarrow> l = 0) \<and> (hash commit \<notin> set m \<longrightarrow> 1 \<le> l)"
proof (cases "hash commit \<in> set m")
  case True
  with ch ok show ?thesis by (simp add: chooseLane_def)
next
  case False
  show ?thesis
  proof (cases "chooseLane items m commit st = allocateLane st")
    case True
    with allocateLane_ok[OF ok, of l st'] ch False show ?thesis by simp
  next
    case nalloc: False
    then obtain fp where fp: "firstVisibleParent items commit = Some fp" "fp \<noteq> []"
      using False by (auto simp: chooseLane_def split: option.splits if_splits)
    let ?pl = "case hashLanes st fp of Some l \<Rightarrow> l | None \<Rightarrow> 0"
    from nalloc fp False have eq: "chooseLane items m commit st = (?pl, st)" and nz: "?pl \<noteq> 0"
      by (auto simp: chooseLane_def Let_def split: if_splits)
    from ok have "0 \<le> ?pl" by (auto simp: lanesOk_def split: option.splits)
    with nz have "1 \<le> ?pl" by simp
    with eq ch ok False show ?thesis by simp
  qed
qed

lemma assignLane_ok:
  assumes ok: "lanesOk st"
  shows "lanesOk (assignLane items m commit st)
         \<and> (\<exists>l. rowLanes (assignLane items m commit st) = l # rowLanes st
                \<and> (hash commit \<in> set m \<longrightarrow> l = 0) \<and> (hash commit \<notin> set m \<longrightarrow> 1 \<le> l))"
proof -
  obtain l st' where ch: "chooseLane items m commit st = (l, st')" by force
  from chooseLane_ok[OF ok ch] ch show ?thesis
    by (auto simp: assignLane_def lanesOk_def)
qed

lemma foldr_assignLane:
  assumes "lanesOk st0"
  shows "lanesOk (foldr (assignLane items m) xs st0)
         \<and> length (rowLanes (foldr (assignLane items m) xs st0)) = length xs + length (rowLanes st0)
         \<and> (\<forall>i < length xs.
              (hash (xs ! i) \<in> set m \<longrightarrow> rowLanes (foldr (assignLane items m) xs st0) ! i = 0)
            \<and> (hash (xs ! i) \<notin> set m \<longrightarrow> 1 \<le> rowLanes (foldr (assignLane items m) xs st0) ! i))"
proof (induction xs)
  case Nil
  then show ?case using assms by simp
next
  case (Cons x xs)
  let ?st = "foldr (assignLane items m) xs st0"
  from Cons have ok: "lanesOk ?st" by simp
  from assignLane_ok[OF ok, of items m x] obtain l where
    ok': "lanesOk (assignLane items m x ?st)"
    and rl: "rowLanes (assignLane items m x ?st) = l # rowLanes ?st"
    and l: "hash x \<in> set m \<longrightarrow> l = 0" "hash x \<notin> set m \<longrightarrow> 1 \<le> l"
    by blast
  show ?case
  proof (intro conjI allI impI)
    show "lanesOk (foldr (assignLane items m) (x # xs) st0)" using ok' by simp
    show "length (rowLanes (foldr (assignLane items m) (x # xs) st0))
            = length (x # xs) + length (rowLanes st0)"
      using rl Cons by simp
  next
    fix i assume "i < length (x # xs)" "hash ((x # xs) ! i) \<in> set m"
    then show "rowLanes (foldr (assignLane items m) (x # xs) st0) ! i = 0"
      using rl l Cons by (cases i) auto
  next
    fix i assume "i < length (x # xs)" "hash ((x # xs) ! i) \<notin> set m"
    then show "1 \<le> rowLanes (foldr (assignLane items m) (x # xs) st0) ! i"
      using rl l Cons by (cases i) auto
  qed
qed

lemma assignLanes_lanes:
  "length (rowLanes (assignLanes items m)) = length items
   \<and> (\<forall>i < length items.
        (hash (items ! i) \<in> set m \<longrightarrow> rowLanes (assignLanes items m) ! i = 0)
      \<and> (hash (items ! i) \<notin> set m \<longrightarrow> 1 \<le> rowLanes (assignLanes items m) ! i))"
proof -
  have "lanesOk \<lparr>rowLanes = [], hashLanes = Map.empty, lanesUsed = 1, nextLane = 1\<rparr>"
    by (simp add: lanesOk_def)
  from foldr_assignLane[OF this, of items m items] show ?thesis
    by (simp add: assignLanes_def)
qed

text \<open>
  Claim C2. On the diamond \<open>[C0(parents C1, C2), C1(parents C3), C2(parents C3), C3]\<close> the
  first-parent walk gives the mainline \<open>C0, C1, C3\<close>, the lanes are \<open>[0, 0, 1, 0]\<close>, and the
  edges are \<open>0 \<rightarrow> 1\<close> on lanes \<open>0 \<rightarrow> 0\<close>, \<open>0 \<rightarrow> 2\<close> on lanes \<open>0 \<rightarrow> 1\<close>, \<open>1 \<rightarrow> 3\<close> on lanes
  \<open>0 \<rightarrow> 0\<close> and \<open>2 \<rightarrow> 3\<close> on lanes \<open>1 \<rightarrow> 0\<close>.
\<close>

theorem diamond_scenario:
  "mainlineOf diamond = Some [''C0'', ''C1'', ''C3'']
   \<and> buildGraph diamond =
       Some \<lparr>laneByRow = [0, 0, 1, 0],
             edges = [\<lparr>fromRow = 0, toRow = 1, fromLane = 0, toLane = 0\<rparr>,
                      \<lparr>fromRow = 0, toRow = 2, fromLane = 0, toLane = 1\<rparr>,
                      \<lparr>fromRow = 1, toRow = 3, fromLane = 0, toLane = 0\<rparr>,
                      \<lparr>fromRow = 2, toRow = 3, fromLane = 1, toLane = 0\<rparr>],
             laneCount = 2, laneStep = 14, width = 44, height = 184\<rparr>"
  by code_simp

lemma diamond_mainline: "mainlineOf diamond = Some [''C0'', ''C1'', ''C3'']"
  by code_simp

lemma diamond_graph:
  "buildGraph diamond =
       Some \<lparr>laneByRow = [0, 0, 1, 0],
             edges = [\<lparr>fromRow = 0, toRow = 1, fromLane = 0, toLane = 0\<rparr>,
                      \<lparr>fromRow = 0, toRow = 2, fromLane = 0, toLane = 1\<rparr>,
                      \<lparr>fromRow = 1, toRow = 3, fromLane = 0, toLane = 0\<rparr>,
                      \<lparr>fromRow = 2, toRow = 3, fromLane = 1, toLane = 0\<rparr>],
             laneCount = 2, laneStep = 14, width = 44, height = 184\<rparr>"
  by code_simp

lemma diamond_hashes: "\<forall>c \<in> set diamond. hash c \<noteq> []"
  by (simp add: diamond_def commitOf_def)

text \<open>
  Claim C3. For every commit list, \<open>buildGraph\<close> returns a layout whose \<open>laneByRow\<close> has
  one entry per commit, and every row whose hash the mainline walk has visited has
  lane 0. When no hash is empty (the data model), the visited hashes are the chain
  that starts at row 0 and follows the first visible parent, so every commit on that
  chain has lane 0.
\<close>

theorem mainline_lane_zero:
  "\<exists>g m. buildGraph items = Some g \<and> mainlineOf items = Some m
     \<and> length (laneByRow g) = length items
     \<and> (\<forall>row < length items. hash (items ! row) \<in> set m \<longrightarrow> laneByRow g ! row = 0)
     \<and> ((\<forall>c \<in> set items. hash c \<noteq> []) \<longrightarrow>
          (\<forall>row < length items.
             onMainlineChain items (hash (items ! row)) \<longrightarrow> laneByRow g ! row = 0))"
proof -
  obtain m where m: "mainlineOf items = Some m" using mainlineOf_total by blast
  from buildGraph_Some[OF m] obtain g where g: "buildGraph items = Some g"
    "laneByRow g = rowLanes (assignLanes items m)" by blast
  have a: "length (laneByRow g) = length items"
    and b: "\<forall>row < length items. hash (items ! row) \<in> set m \<longrightarrow> laneByRow g ! row = 0"
    using assignLanes_lanes[of items m] g(2) by simp_all
  have "(\<forall>c \<in> set items. hash c \<noteq> []) \<longrightarrow>
          (\<forall>row < length items.
             onMainlineChain items (hash (items ! row)) \<longrightarrow> laneByRow g ! row = 0)"
    using b mainlineOf_chain[OF m] by blast
  with g(1) m a b show ?thesis by blast
qed

theorem mainline_lane_zero_witness:
  "\<exists>g. buildGraph diamond = Some g \<and> length (laneByRow g) = 4
     \<and> (\<forall>c \<in> set diamond. hash c \<noteq> [])
     \<and> onMainlineChain diamond (hash (diamond ! 0)) \<and> laneByRow g ! 0 = 0
     \<and> hash (diamond ! 3) \<in> set [''C0'', ''C1'', ''C3''] \<and> laneByRow g ! 3 = 0"
proof -
  from mainline_lane_zero[of diamond] obtain g m where
    g: "buildGraph diamond = Some g" and m: "mainlineOf diamond = Some m"
    and len: "length (laneByRow g) = length diamond"
    and z: "\<forall>row < length diamond. hash (diamond ! row) \<in> set m \<longrightarrow> laneByRow g ! row = 0"
    and ch: "(\<forall>c \<in> set diamond. hash c \<noteq> []) \<longrightarrow>
          (\<forall>row < length diamond.
             onMainlineChain diamond (hash (diamond ! row)) \<longrightarrow> laneByRow g ! row = 0)"
    by blast
  have m': "m = [''C0'', ''C1'', ''C3'']" using m diamond_mainline by simp
  have l4: "length diamond = 4" by (simp add: diamond_def)
  have h3: "hash (diamond ! 3) = ''C3''" by (simp add: diamond_def commitOf_def)
  have c0: "onMainlineChain diamond (hash (diamond ! 0))"
    by (rule onMainlineChain.start) (simp add: diamond_def)
  have "laneByRow g ! 0 = 0" using ch diamond_hashes c0 l4 by simp
  moreover have "laneByRow g ! 3 = 0" using z m' h3 l4 by simp
  ultimately show ?thesis using g len l4 diamond_hashes c0 h3 by auto
qed

text \<open>
  Claim C4. For every commit list and every edge of the layout, \<open>fromRow\<close> and \<open>toRow\<close>
  are rows of the input, \<open>toRow\<close> is greater than \<open>fromRow\<close>, and the hash at \<open>toRow\<close> is one
  of the parents of the commit at \<open>fromRow\<close>.
\<close>

theorem edges_follow_parents:
  "\<exists>g. buildGraph items = Some g
     \<and> (\<forall>e \<in> set (edges g).
          fromRow e < toRow e \<and> toRow e < length items \<and> fromRow e < length items
          \<and> hash (items ! toRow e) \<in> set (parents (items ! fromRow e)))"
proof -
  obtain m where m: "mainlineOf items = Some m" using mainlineOf_total by blast
  from buildGraph_Some[OF m] obtain g where g: "buildGraph items = Some g"
    "edges g = buildEdges items (assignLanes items m)" by blast
  have "\<forall>e \<in> set (edges g).
          fromRow e < toRow e \<and> toRow e < length items \<and> fromRow e < length items
          \<and> hash (items ! toRow e) \<in> set (parents (items ! fromRow e))"
    using buildEdges_sound[of _ items "assignLanes items m"] g(2) by fastforce
  with g(1) show ?thesis by blast
qed

theorem edges_follow_parents_witness:
  "\<exists>g. buildGraph diamond = Some g
     \<and> \<lparr>fromRow = 0, toRow = 2, fromLane = 0, toLane = 1\<rparr> \<in> set (edges g)
     \<and> hash (diamond ! 2) \<in> set (parents (diamond ! 0)) \<and> 2 < length diamond"
proof -
  from edges_follow_parents[of diamond] obtain g where
    g: "buildGraph diamond = Some g" and
    e: "\<forall>e \<in> set (edges g).
          fromRow e < toRow e \<and> toRow e < length diamond \<and> fromRow e < length diamond
          \<and> hash (diamond ! toRow e) \<in> set (parents (diamond ! fromRow e))" by blast
  have mem: "\<lparr>fromRow = 0, toRow = 2, fromLane = 0, toLane = 1\<rparr> \<in> set (edges g)"
    using g diamond_graph by auto
  from bspec[OF e mem] g mem show ?thesis by auto
qed

text \<open>
  Claim C10. For every commit list, a row has lane 0 exactly when its hash is on the
  mainline, and every other row has a lane of at least 1.
\<close>

theorem lane_zero_iff_mainline:
  "\<exists>g m. buildGraph items = Some g \<and> mainlineOf items = Some m
     \<and> (\<forall>row < length items.
          (laneByRow g ! row = 0 \<longleftrightarrow> hash (items ! row) \<in> set m)
          \<and> (hash (items ! row) \<notin> set m \<longrightarrow> 1 \<le> laneByRow g ! row))
     \<and> ((\<forall>c \<in> set items. hash c \<noteq> []) \<longrightarrow>
          (\<forall>row < length items.
             laneByRow g ! row = 0 \<longleftrightarrow> onMainlineChain items (hash (items ! row))))"
proof -
  obtain m where m: "mainlineOf items = Some m" using mainlineOf_total by blast
  from buildGraph_Some[OF m] obtain g where g: "buildGraph items = Some g"
    "laneByRow g = rowLanes (assignLanes items m)" by blast
  have b: "\<forall>row < length items.
          (laneByRow g ! row = 0 \<longleftrightarrow> hash (items ! row) \<in> set m)
          \<and> (hash (items ! row) \<notin> set m \<longrightarrow> 1 \<le> laneByRow g ! row)"
    using assignLanes_lanes[of items m] g(2) by fastforce
  have "(\<forall>c \<in> set items. hash c \<noteq> []) \<longrightarrow>
          (\<forall>row < length items.
             laneByRow g ! row = 0 \<longleftrightarrow> onMainlineChain items (hash (items ! row)))"
    using b mainlineOf_chain[OF m] by blast
  with g(1) m b show ?thesis by blast
qed

theorem lane_zero_iff_mainline_witness:
  "\<exists>g. buildGraph diamond = Some g
     \<and> hash (diamond ! 2) \<notin> set [''C0'', ''C1'', ''C3''] \<and> 1 \<le> laneByRow g ! 2
     \<and> (\<forall>c \<in> set diamond. hash c \<noteq> []) \<and> \<not> onMainlineChain diamond (hash (diamond ! 2))"
proof -
  from lane_zero_iff_mainline[of diamond] obtain g m where
    g: "buildGraph diamond = Some g" and m: "mainlineOf diamond = Some m"
    and z: "\<forall>row < length diamond.
          (laneByRow g ! row = 0 \<longleftrightarrow> hash (diamond ! row) \<in> set m)
          \<and> (hash (diamond ! row) \<notin> set m \<longrightarrow> 1 \<le> laneByRow g ! row)"
    and ch: "(\<forall>c \<in> set diamond. hash c \<noteq> []) \<longrightarrow>
          (\<forall>row < length diamond.
             laneByRow g ! row = 0 \<longleftrightarrow> onMainlineChain diamond (hash (diamond ! row)))"
    by blast
  have m': "m = [''C0'', ''C1'', ''C3'']" using m diamond_mainline by simp
  have l4: "length diamond = 4" by (simp add: diamond_def)
  have h2: "hash (diamond ! 2) = ''C2''" by (simp add: diamond_def commitOf_def)
  have one: "1 \<le> laneByRow g ! 2" using z m' h2 l4 by simp
  then have "laneByRow g ! 2 \<noteq> 0" by simp
  then have "\<not> onMainlineChain diamond (hash (diamond ! 2))"
    using ch diamond_hashes l4 by simp
  with g one h2 diamond_hashes show ?thesis by auto
qed

section \<open>Branch labels\<close>

lemma labelWalk_induct [consumes 0, case_names step]:
  assumes step: "\<And>assignments seen cursor dist.
     (\<And>nxt. cursor \<noteq> [] \<Longrightarrow> hashToRow items cursor \<noteq> None \<Longrightarrow> cursor \<notin> set seen \<Longrightarrow>
        dist \<le> length items + 8 \<Longrightarrow> nxt \<noteq> [] \<Longrightarrow>
        P (recordAssignment assignments cursor lbl prio dist) (seen @ [cursor]) nxt (dist + 1))
     \<Longrightarrow> P assignments seen cursor dist"
  shows "P assignments seen cursor dist"
proof -
  have "k = length items + 9 - d \<Longrightarrow> P a s c d" for k a s c d
  proof (induction k arbitrary: a s c d rule: less_induct)
    case (less k a s c d)
    show ?case
    proof (rule step)
      fix nxt :: string
      assume "c \<noteq> []" "hashToRow items c \<noteq> None" "c \<notin> set s"
        "d \<le> length items + 8" "nxt \<noteq> []"
      then have "length items + 9 - (d + 1) < k" using less.prems by arith
      then show "P (recordAssignment a c lbl prio d) (s @ [c]) nxt (d + 1)"
        by (rule less.IH) simp
    qed
  qed
  then show ?thesis by simp
qed

lemma labelWalk_cases:
  assumes "labelWalk items lbl prio a seen cursor dist = Some r"
  obtains (stop) "r = a"
      "cursor = [] \<or> hashToRow items cursor = None \<or> cursor \<in> set seen \<or> length items + 8 < dist"
  | (last) "r = recordAssignment a cursor lbl prio dist"
      "cursor \<noteq> []" "hashToRow items cursor \<noteq> None" "cursor \<notin> set seen" "dist \<le> length items + 8"
  | (more) nxt where "cursor \<noteq> []" "hashToRow items cursor \<noteq> None" "cursor \<notin> set seen"
      "dist \<le> length items + 8" "nxt \<noteq> []"
      "labelWalk items lbl prio (recordAssignment a cursor lbl prio dist) (seen @ [cursor]) nxt (dist + 1)
         = Some r"
proof (cases "cursor \<noteq> [] \<and> hashToRow items cursor \<noteq> None \<and> cursor \<notin> set seen
              \<and> dist \<le> length items + 8")
  case False
  then have "labelWalk items lbl prio a seen cursor dist = Some a"
    by (subst labelWalk.simps) (simp only: if_False)
  with assms False show ?thesis by (intro stop) auto
next
  case True
  let ?nx = "case commitByHash items cursor of None \<Rightarrow> None
             | Some commit \<Rightarrow> firstVisibleParent items commit"
  let ?R = "recordAssignment a cursor lbl prio dist"
  have eq: "labelWalk items lbl prio a seen cursor dist =
      (case ?nx of None \<Rightarrow> Some ?R
       | Some nxt \<Rightarrow> if nxt = [] then Some ?R
                     else labelWalk items lbl prio ?R (seen @ [cursor]) nxt (dist + 1))"
    by (subst labelWalk.simps) (simp only: True if_True simp_thms)
  show ?thesis
  proof (cases ?nx)
    case None
    with eq assms have "r = ?R" by simp
    with True show ?thesis by (intro last) auto
  next
    case (Some nxt)
    show ?thesis
    proof (cases "nxt = []")
      case True
      with eq assms Some have "r = ?R" by simp
      with \<open>cursor \<noteq> [] \<and> _\<close> show ?thesis by (intro last) auto
    next
      case False
      with eq assms Some
      have "labelWalk items lbl prio ?R (seen @ [cursor]) nxt (dist + 1) = Some r" by simp
      with \<open>cursor \<noteq> [] \<and> _\<close> False show ?thesis by (intro more[of nxt]) auto
    qed
  qed
qed

lemma labelWalk_total: "\<exists>r. labelWalk items lbl prio a seen cursor dist = Some r"
proof (induction a seen cursor dist rule: labelWalk_induct[where items = items and lbl = lbl and prio = prio])
  case (step a seen cursor dist)
  show ?case
  proof (cases "cursor \<noteq> [] \<and> hashToRow items cursor \<noteq> None \<and> cursor \<notin> set seen
                \<and> dist \<le> length items + 8")
    case False
    then show ?thesis by (subst labelWalk.simps) auto
  next
    case True
    then have rec: "nxt \<noteq> [] \<Longrightarrow>
        \<exists>r. labelWalk items lbl prio (recordAssignment a cursor lbl prio dist) (seen @ [cursor])
              nxt (dist + 1) = Some r" for nxt
      using step by blast
    show ?thesis
      by (subst labelWalk.simps) (use True rec in \<open>auto split: option.splits\<close>)
  qed
qed

lemma walkBranch_total: "\<exists>r. walkBranch items a b = Some r"
  by (auto simp: walkBranch_def labelWalk_total split: option.splits)

lemma walkBranches_total: "\<exists>r. walkBranches items a bs = Some r"
proof (induction bs arbitrary: a)
  case Nil then show ?case by simp
next
  case (Cons b bs)
  obtain a' where "walkBranch items a b = Some a'" using walkBranch_total by blast
  with Cons[of a'] show ?case by simp
qed

lemma buildFlowBranchLabelMap_total: "\<exists>m. buildFlowBranchLabelMap lc items bs = Some m"
proof -
  obtain a where "walkBranches items Map.empty (sortWith (compareBranches lc) bs) = Some a"
    using walkBranches_total by blast
  then show ?thesis by (simp add: buildFlowBranchLabelMap_def)
qed

lemma set_insertSorted: "set (insertSorted cmp x ys) = insert x (set ys)"
  by (induction ys) auto

lemma set_sortWith: "set (sortWith cmp xs) = set xs"
  by (induction xs) (simp_all add: sortWith_def set_insertSorted)

text \<open>An assignment of priority 0 and distance 0 is never replaced.\<close>

lemma recordAssignment_keeps:
  assumes "a t = Some \<lparr>branchName = n, priority = 0, distance = 0\<rparr>" and "0 \<le> prio"
  shows "recordAssignment a cursor lbl prio dist t = Some \<lparr>branchName = n, priority = 0, distance = 0\<rparr>"
  using assms by (cases "cursor = t") (auto simp: recordAssignment_def split: option.splits)

lemma labelWalk_keeps:
  assumes "labelWalk items lbl prio a seen cursor dist = Some r"
    and "a t = Some \<lparr>branchName = n, priority = 0, distance = 0\<rparr>" and "0 \<le> prio"
  shows "r t = Some \<lparr>branchName = n, priority = 0, distance = 0\<rparr>"
  using assms(1,2)
proof (induction a seen cursor dist rule: labelWalk_induct[where items = items and lbl = lbl and prio = prio])
  case (step a seen cursor dist)
  from step.prems(1) show ?case
  proof (cases rule: labelWalk_cases)
    case stop
    then show ?thesis using step.prems by simp
  next
    case last
    then show ?thesis using recordAssignment_keeps[of a t n prio cursor lbl dist, OF step.prems(2) assms(3)] by simp
  next
    case (more nxt)
    from step.IH[OF more(1-5) more(6) recordAssignment_keeps[of a t n prio cursor lbl dist, OF step.prems(2) assms(3)]]
    show ?thesis .
  qed
qed

lemma recordAssignment_low:
  "lowPriority a \<Longrightarrow> 1 \<le> prio \<Longrightarrow> lowPriority (recordAssignment a cursor lbl prio dist)"
  by (auto simp: lowPriority_def recordAssignment_def split: option.splits if_splits)

lemma labelWalk_low:
  assumes "labelWalk items lbl prio a seen cursor dist = Some r" and "lowPriority a" and "1 \<le> prio"
  shows "lowPriority r"
  using assms(1,2)
proof (induction a seen cursor dist rule: labelWalk_induct[where items = items and lbl = lbl and prio = prio])
  case (step a seen cursor dist)
  from step.prems(1) show ?case
  proof (cases rule: labelWalk_cases)
    case stop
    then show ?thesis using step.prems by simp
  next
    case last
    then show ?thesis using recordAssignment_low[OF step.prems(2) assms(3)] by simp
  next
    case (more nxt)
    from step.IH[OF more(1-5) more(6) recordAssignment_low[OF step.prems(2) assms(3)]]
    show ?thesis .
  qed
qed

lemma priorityOf_range: "0 \<le> priorityOf b" "\<not> isCurrent b \<Longrightarrow> 1 \<le> priorityOf b"
  by (simp_all add: priorityOf_def)

lemma walkBranch_keeps:
  assumes "walkBranch items a b = Some r"
    and "a t = Some \<lparr>branchName = n, priority = 0, distance = 0\<rparr>"
  shows "r t = Some \<lparr>branchName = n, priority = 0, distance = 0\<rparr>"
  using assms labelWalk_keeps[of items "labelOf b" "priorityOf b" a _ _ _ r t n] priorityOf_range(1)[of b]
  by (auto simp: walkBranch_def split: option.splits if_splits)

lemma walkBranch_low:
  assumes "walkBranch items a b = Some r" and "lowPriority a" and "\<not> isCurrent b"
  shows "lowPriority r"
  using assms labelWalk_low[of items "labelOf b" "priorityOf b" a _ _ _ r] priorityOf_range(2)[OF assms(3)]
  by (auto simp: walkBranch_def split: option.splits if_splits)

text \<open>The walk of the current branch writes its own name at its tip.\<close>

lemma walkBranch_current_tip:
  assumes w: "walkBranch items a b = Some r"
    and cur: "isCurrent b" "\<not> isRemote b"
    and tip: "targetHash b = Some t" "t \<noteq> []" "t \<in> hash ` set items"
    and a: "a t = Some \<lparr>branchName = name b, priority = 0, distance = 0\<rparr> \<or> lowPriority a"
  shows "r t = Some \<lparr>branchName = name b, priority = 0, distance = 0\<rparr>"
proof -
  have vis: "hashToRow items t \<noteq> None" using tip(3) hashToRow_dom[of items t] by blast
  have lw: "labelWalk items (name b) 0 a [] t 0 = Some r"
    using w cur tip(1,2) vis by (simp add: walkBranch_def labelOf_def priorityOf_def)
  have rec: "recordAssignment a t (name b) 0 0 t
             = Some \<lparr>branchName = name b, priority = 0, distance = 0\<rparr>"
  proof (cases "a t")
    case None
    then show ?thesis by (simp add: recordAssignment_def)
  next
    case (Some x)
    from a show ?thesis
    proof
      assume "a t = Some \<lparr>branchName = name b, priority = 0, distance = 0\<rparr>"
      then show ?thesis by (simp add: recordAssignment_def)
    next
      assume "lowPriority a"
      then have "1 \<le> priority x" using Some by (auto simp: lowPriority_def)
      then show ?thesis using Some by (simp add: recordAssignment_def)
    qed
  qed
  from lw show ?thesis
  proof (cases rule: labelWalk_cases)
    case stop
    then show ?thesis using tip(2) vis by simp
  next
    case last
    then show ?thesis using rec by simp
  next
    case (more nxt)
    from labelWalk_keeps[of items "name b" 0 _ _ _ _ r t "name b", OF more(6) rec] show ?thesis by simp
  qed
qed

lemma walkBranches_current_tip:
  assumes "walkBranches items a bs = Some r"
    and "\<forall>b' \<in> set bs. isCurrent b' \<longrightarrow> b' = b"
    and cur: "isCurrent b" "\<not> isRemote b"
    and tip: "targetHash b = Some t" "t \<noteq> []" "t \<in> hash ` set items"
    and "a t = Some \<lparr>branchName = name b, priority = 0, distance = 0\<rparr> \<or> lowPriority a"
  shows "(r t = Some \<lparr>branchName = name b, priority = 0, distance = 0\<rparr> \<or> lowPriority r)
         \<and> (b \<in> set bs \<or> a t = Some \<lparr>branchName = name b, priority = 0, distance = 0\<rparr>
              \<longrightarrow> r t = Some \<lparr>branchName = name b, priority = 0, distance = 0\<rparr>)"
  using assms(1,2,8)
proof (induction bs arbitrary: a)
  case Nil
  then show ?case by auto
next
  case (Cons x bs)
  let ?good = "\<lambda>a. a t = Some \<lparr>branchName = name b, priority = 0, distance = 0\<rparr>"
  from Cons.prems(1) obtain a' where x: "walkBranch items a x = Some a'"
    and rest: "walkBranches items a' bs = Some r"
    by (auto split: option.splits)
  have only: "\<forall>b' \<in> set bs. isCurrent b' \<longrightarrow> b' = b" using Cons.prems(2) by simp
  have a': "(?good a' \<or> lowPriority a') \<and> (x = b \<or> ?good a \<longrightarrow> ?good a')"
  proof (cases "x = b")
    case True
    from walkBranch_current_tip[OF x[unfolded True] cur tip Cons.prems(3)] show ?thesis by simp
  next
    case False
    then have nc: "\<not> isCurrent x" using Cons.prems(2) by auto
    show ?thesis
      using Cons.prems(3) walkBranch_keeps[OF x] walkBranch_low[OF x _ nc] False by blast
  qed
  from Cons.IH[OF rest only] a' show ?case by auto
qed

text \<open>
  Claim C6. If one branch is marked current, is local, and points at a commit of the
  visible set (a non-empty hash, as the data model requires), and no other branch is
  marked current, then the returned map gives that commit the name of the current
  branch, whatever the other branches and whatever the comparison of names.
\<close>

theorem current_branch_tip_label:
  assumes "b \<in> set branchItems" and "isCurrent b" and "\<not> isRemote b"
    and "\<forall>b' \<in> set branchItems. isCurrent b' \<longrightarrow> b' = b"
    and "targetHash b = Some t" and "t \<noteq> []" and "t \<in> hash ` set items"
  shows "\<exists>m. buildFlowBranchLabelMap localeCompare items branchItems = Some m \<and> m t = Some (name b)"
proof -
  let ?bs = "sortWith (compareBranches localeCompare) branchItems"
  obtain a where a: "walkBranches items Map.empty ?bs = Some a"
    using walkBranches_total by blast
  have "lowPriority Map.empty" by (simp add: lowPriority_def)
  then have "a t = Some \<lparr>branchName = name b, priority = 0, distance = 0\<rparr>"
    using walkBranches_current_tip[OF a _ assms(2,3,5,6,7)] assms(1,4)
    by (simp add: set_sortWith)
  then show ?thesis using a by (simp add: buildFlowBranchLabelMap_def)
qed

theorem current_branch_tip_label_witness:
  "\<exists>m. buildFlowBranchLabelMap codeUnitCompare diamond exampleBranches = Some m
       \<and> m ''C0'' = Some ''main''"
proof -
  let ?b = "\<lparr>name = ''main'', isCurrent = True, isRemote = False, targetHash = Some ''C0''\<rparr>"
  have "\<exists>m. buildFlowBranchLabelMap codeUnitCompare diamond exampleBranches = Some m
          \<and> m ''C0'' = Some (name ?b)"
    by (rule current_branch_tip_label[of ?b exampleBranches "''C0''" diamond codeUnitCompare])
       (simp_all add: exampleBranches_def diamond_def commitOf_def)
  then show ?thesis by simp
qed

lemma recordAssignment_label:
  "recordAssignment a cursor lbl prio dist h = a h
   \<or> map_option branchName (recordAssignment a cursor lbl prio dist h) = Some lbl"
  by (auto simp: recordAssignment_def split: option.splits)

lemma labelWalk_label:
  assumes "labelWalk items lbl prio a seen cursor dist = Some r"
  shows "r h = a h \<or> map_option branchName (r h) = Some lbl"
  using assms
proof (induction a seen cursor dist rule: labelWalk_induct[where items = items and lbl = lbl and prio = prio])
  case (step a seen cursor dist)
  from step.prems(1) show ?case
  proof (cases rule: labelWalk_cases)
    case stop
    then show ?thesis by simp
  next
    case last
    then show ?thesis using recordAssignment_label[of a cursor lbl prio dist h] by simp
  next
    case (more nxt)
    from step.IH[OF more(1-5) more(6)] recordAssignment_label[of a cursor lbl prio dist h]
    show ?thesis by auto
  qed
qed

lemma labelWalk_tip:
  assumes w: "labelWalk items lbl prio a [] t 0 = Some r"
    and tip: "t \<noteq> []" "t \<in> hash ` set items" and a: "a t = None"
  shows "map_option branchName (r t) = Some lbl"
proof -
  have vis: "hashToRow items t \<noteq> None" using tip(2) hashToRow_dom[of items t] by blast
  have rec: "map_option branchName (recordAssignment a t lbl prio 0 t) = Some lbl"
    using a by (simp add: recordAssignment_def)
  from w show ?thesis
  proof (cases rule: labelWalk_cases)
    case stop
    then show ?thesis using tip(1) vis by simp
  next
    case last
    then show ?thesis using rec by simp
  next
    case (more nxt)
    from labelWalk_label[OF more(6), of t] rec show ?thesis by auto
  qed
qed

lemma stripOrigin_origin: "stripOrigin (''origin/'' @ rest) = rest"
  by (simp add: stripOrigin_def)

text \<open>
  Claim C7, as amended. For a remote branch whose tip is walked, every assignment the
  walk records carries the branch name with a leading \<open>origin/\<close> removed, and the tip
  receives it: \<open>origin/rest\<close> gives \<open>rest\<close>, and a name that does not start with \<open>origin/\<close>
  (the prefix of another remote included) is recorded unchanged.
\<close>

theorem remote_label_strips_origin:
  assumes "isRemote b" and "targetHash b = Some t" and "t \<noteq> []" and "t \<in> hash ` set items"
  shows "(\<exists>r. walkBranch items a b = Some r
            \<and> (\<forall>h. r h = a h \<or> map_option branchName (r h) = Some (stripOrigin (name b)))
            \<and> (a t = None \<longrightarrow> map_option branchName (r t) = Some (stripOrigin (name b))))
         \<and> (\<exists>m. buildFlowBranchLabelMap localeCompare items [b] = Some m
                \<and> m t = Some (stripOrigin (name b)))
         \<and> stripOrigin (''origin/'' @ rest) = rest
         \<and> (take 7 (name b) \<noteq> ''origin/'' \<longrightarrow> stripOrigin (name b) = name b)"
proof -
  have vis: "hashToRow items t \<noteq> None" using assms(4) hashToRow_dom[of items t] by blast
  have wb: "walkBranch items a b
            = labelWalk items (stripOrigin (name b)) (priorityOf b) a [] t 0" for a
    using assms(1,2,3) vis by (auto simp: walkBranch_def labelOf_def)
  have A: "\<exists>r. walkBranch items a b = Some r
            \<and> (\<forall>h. r h = a h \<or> map_option branchName (r h) = Some (stripOrigin (name b)))
            \<and> (a t = None \<longrightarrow> map_option branchName (r t) = Some (stripOrigin (name b)))" for a
  proof -
    obtain r where r: "labelWalk items (stripOrigin (name b)) (priorityOf b) a [] t 0 = Some r"
      using labelWalk_total by blast
    from labelWalk_label[OF r] labelWalk_tip[OF r assms(3,4)] r wb show ?thesis by auto
  qed
  from A[of Map.empty] obtain r where
    r: "walkBranch items Map.empty b = Some r"
       "map_option branchName (r t) = Some (stripOrigin (name b))" by auto
  have B: "\<exists>m. buildFlowBranchLabelMap localeCompare items [b] = Some m
                \<and> m t = Some (stripOrigin (name b))"
    using r by (simp add: buildFlowBranchLabelMap_def sortWith_def)
  have C: "take 7 (name b) \<noteq> ''origin/'' \<longrightarrow> stripOrigin (name b) = name b"
    by (simp add: stripOrigin_def)
  from A[of a] B C stripOrigin_origin[of rest] show ?thesis by blast
qed

lemma C2_visible: "''C2'' \<in> hash ` set diamond"
  by (simp add: diamond_def commitOf_def)

theorem remote_label_strips_origin_witness:
  "(\<exists>m. buildFlowBranchLabelMap codeUnitCompare diamond [originDev] = Some m
       \<and> m ''C2'' = Some ''dev'')
   \<and> (\<exists>m. buildFlowBranchLabelMap codeUnitCompare diamond [upstreamDev] = Some m
       \<and> m ''C2'' = Some ''upstream/dev'')"
proof -
  have a: "isRemote originDev" "targetHash originDev = Some ''C2''"
          "isRemote upstreamDev" "targetHash upstreamDev = Some ''C2''" "''C2'' \<noteq> []"
    by (simp_all add: originDev_def upstreamDev_def)
  have s1: "stripOrigin (name originDev) = ''dev''"
    by (simp add: stripOrigin_def originDev_def)
  have n2: "take 7 (name upstreamDev) \<noteq> ''origin/''" by (simp add: upstreamDev_def)
  have nm: "name upstreamDev = ''upstream/dev''" by (simp add: upstreamDev_def)
  from remote_label_strips_origin[OF a(1,2,5) C2_visible, of Map.empty codeUnitCompare "[]"] s1
  have one: "\<exists>m. buildFlowBranchLabelMap codeUnitCompare diamond [originDev] = Some m
       \<and> m ''C2'' = Some ''dev''" by simp
  from remote_label_strips_origin[OF a(3,4,5) C2_visible, of Map.empty codeUnitCompare "[]"] n2 nm
  have two: "\<exists>m. buildFlowBranchLabelMap codeUnitCompare diamond [upstreamDev] = Some m
       \<and> m ''C2'' = Some ''upstream/dev''" by auto
  from one two show ?thesis by blast
qed

text \<open>
  Claim C7 as stated fails: the remote branch \<open>upstream/dev\<close> labels its tip
  \<open>upstream/dev\<close>, not \<open>dev\<close>.
\<close>

theorem remote_prefix_counterexample:
  "map_option (\<lambda>m. m ''C2'') (buildFlowBranchLabelMap codeUnitCompare diamond [upstreamDev])
     = Some (Some ''upstream/dev'')
   \<and> map_option (\<lambda>m. m ''C2'') (buildFlowBranchLabelMap codeUnitCompare diamond [upstreamDev])
     \<noteq> Some (Some ''dev'')"
  by code_simp

section \<open>Termination of the ancestry walks\<close>

lemma mainlineOf_bound:
  "\<exists>m. mainlineOf items = Some m \<and> distinct m \<and> length m \<le> length items"
proof (cases "items = []")
  case True
  then show ?thesis by (simp add: mainlineOf_def)
next
  case False
  obtain m where m: "mainlineWalk items [] (hash (items ! 0)) = Some m"
    using mainlineWalk_total by blast
  have h0: "hash (items ! 0) \<in> hash ` set items" using False by simp
  from mainlineWalk_distinct[OF m] h0 have d: "distinct m" and sub: "set m \<subseteq> hash ` set items"
    by auto
  have "length m = card (set m)" using d by (simp add: distinct_card)
  also have "\<dots> \<le> card (hash ` set items)" using sub by (simp add: card_mono)
  also have "\<dots> \<le> card (set items)" by (simp add: card_image_le)
  also have "\<dots> \<le> length items" by (rule card_length)
  finally show ?thesis using m d False by (simp add: mainlineOf_def)
qed

text \<open>
  Claim C9. Both ancestry walks return on every input, cyclic and self-referencing
  parent graphs included, so \<open>buildGraph\<close> and \<open>buildFlowBranchLabelMap\<close> return on every
  input. The mainline walk stops at a hash it has visited and at a commit with no
  visible parent; a branch walk stops at a hash it has seen, at a hash outside the
  visible set, and when the distance exceeds the number of commits plus 8. The
  mainline walk visits each hash once, so it visits at most as many hashes as there
  are commits.
\<close>

theorem walks_terminate:
  "(\<exists>r. mainlineWalk items mainline cursor = Some r)
   \<and> (\<exists>r. labelWalk items lbl prio assignments seen cursor dist = Some r)
   \<and> (\<exists>g. buildGraph items = Some g)
   \<and> (\<exists>m. buildFlowBranchLabelMap localeCompare items branchItems = Some m)
   \<and> (cursor \<in> set mainline \<longrightarrow> mainlineWalk items mainline cursor = Some mainline)
   \<and> (cursor \<noteq> [] \<and> cursor \<notin> set mainline
        \<and> (\<forall>c. commitByHash items cursor = Some c \<longrightarrow> firstVisibleParent items c = None)
      \<longrightarrow> mainlineWalk items mainline cursor = Some (mainline @ [cursor]))
   \<and> (cursor \<in> set seen \<or> hashToRow items cursor = None \<or> length items + 8 < dist
      \<longrightarrow> labelWalk items lbl prio assignments seen cursor dist = Some assignments)
   \<and> (\<exists>m. mainlineOf items = Some m \<and> distinct m \<and> length m \<le> length items)"
proof -
  have g: "\<exists>g. buildGraph items = Some g"
    using mainlineOf_total[of items] buildGraph_Some[of items] by blast
  have s1: "cursor \<in> set mainline \<longrightarrow> mainlineWalk items mainline cursor = Some mainline"
    by (subst mainlineWalk.simps) simp
  have s2: "cursor \<noteq> [] \<and> cursor \<notin> set mainline
        \<and> (\<forall>c. commitByHash items cursor = Some c \<longrightarrow> firstVisibleParent items c = None)
      \<longrightarrow> mainlineWalk items mainline cursor = Some (mainline @ [cursor])"
    by (subst mainlineWalk.simps) (auto split: option.splits)
  have s3: "cursor \<in> set seen \<or> hashToRow items cursor = None \<or> length items + 8 < dist
      \<longrightarrow> labelWalk items lbl prio assignments seen cursor dist = Some assignments"
    by (subst labelWalk.simps) auto
  from mainlineWalk_total[of items mainline cursor]
       labelWalk_total[of items lbl prio assignments seen cursor dist]
       g buildFlowBranchLabelMap_total[of localeCompare items branchItems]
       s1 s2 s3 mainlineOf_bound[of items]
  show ?thesis by blast
qed

lemma cyclicPair_mainline: "mainlineOf cyclicPair = Some [''a'', ''b'']"
  by code_simp

lemma diamond_C3: "commitByHash diamond ''C3'' = Some (commitOf ''C3'' ''root'' 100 [])"
  by code_simp

theorem walks_terminate_witness:
  "mainlineOf cyclicPair = Some [''a'', ''b'']
   \<and> ''a'' \<in> set [''a'', ''b'']
   \<and> mainlineWalk cyclicPair [''a'', ''b''] ''a'' = Some [''a'', ''b'']
   \<and> labelWalk cyclicPair ''main'' 0 Map.empty [''a'', ''b''] ''a'' 2 = Some Map.empty
   \<and> mainlineWalk diamond [''C0'', ''C1''] ''C3'' = Some [''C0'', ''C1'', ''C3'']"
proof -
  have a: "mainlineWalk cyclicPair [''a'', ''b''] ''a'' = Some [''a'', ''b'']"
    using walks_terminate[of cyclicPair "[''a'', ''b'']" "''a''"] by simp
  have b: "labelWalk cyclicPair ''main'' 0 Map.empty [''a'', ''b''] ''a'' 2 = Some Map.empty"
    using walks_terminate[of cyclicPair "[''a'', ''b'']" "''a''" "''main''" 0 Map.empty "[''a'', ''b'']" 2]
    by simp
  have "\<forall>c. commitByHash diamond ''C3'' = Some c \<longrightarrow> firstVisibleParent diamond c = None"
    by (simp add: diamond_C3 firstVisibleParent_def commitOf_def)
  then have c: "mainlineWalk diamond [''C0'', ''C1''] ''C3'' = Some [''C0'', ''C1'', ''C3'']"
    using walks_terminate[of diamond "[''C0'', ''C1'']" "''C3''"] by simp
  from a b c cyclicPair_mainline show ?thesis by simp
qed

section \<open>Flow grouping: dates and relation entries\<close>

lemma kind_bumpRelation: "map kind (bumpRelation k rs) = map kind rs"
  by (induction rs) auto

lemma set_bumpRelation:
  assumes "distinct (map kind rs)" and "rel' \<in> set (bumpRelation k rs)"
  shows "(kind rel' \<noteq> k \<and> rel' \<in> set rs)
         \<or> (kind rel' = k \<and> (\<exists>rel \<in> set rs. kind rel = k \<and> rel' = rel\<lparr>count := count rel + 1\<rparr>))"
  using assms
proof (induction rs)
  case Nil then show ?case by simp
next
  case (Cons r rs)
  show ?case
  proof (cases "kind r = k")
    case True
    with Cons.prems show ?thesis by (auto simp: image_iff)
  next
    case False
    with Cons show ?thesis by auto
  qed
qed

lemma find_kind_None: "find (\<lambda>item. kind item = k) rs = None \<longleftrightarrow> k \<notin> kind ` set rs"
  by (auto simp: find_None_iff)

lemma groupOk_newGroup: "groupOk (newGroup l r c)"
proof (cases "relationOf (message c)")
  case None
  then show ?thesis by (simp add: groupOk_def newGroup_def kindOf_def)
next
  case (Some kl)
  then show ?thesis by (cases kl) (simp add: groupOk_def newGroup_def kindOf_def)
qed

lemma Max_date_snoc:
  assumes "cs \<noteq> []"
  shows "Max (date ` set (cs @ [c])) = max (Max (date ` set cs)) (date c)"
proof -
  have "date ` set (cs @ [c]) = insert (date c) (date ` set cs)" by auto
  moreover have "finite (date ` set cs)" "date ` set cs \<noteq> {}" using assms by auto
  ultimately show ?thesis by (simp add: max.commute)
qed

lemma groupOk_appendCommit:
  assumes ok: "groupOk g"
  shows "groupOk (appendCommit g c)"
proof -
  let ?g = "appendCommit g c"
  from ok have ne: "commits g \<noteq> []" and st: "startedAt g = Max (date ` set (commits g))"
    and di: "distinct (map kind (relations g))"
    and cnt: "\<And>rel. rel \<in> set (relations g) \<Longrightarrow>
           count rel = int (length (filter (\<lambda>c. kindOf c = Some (kind rel)) (commits g)))"
    and pres: "\<And>c k. c \<in> set (commits g) \<Longrightarrow> kindOf c = Some k \<Longrightarrow> k \<in> kind ` set (relations g)"
    by (auto simp: groupOk_def)
  have cm: "commits ?g = commits g @ [c]" and en: "endedAt ?g = date c"
    and sa: "startedAt ?g = max (startedAt g) (date c)"
    and rl: "relations ?g = addRelation (relationOf (message c)) (relations g)"
    by (simp_all add: appendCommit_def)
  have A: "startedAt ?g = Max (date ` set (commits ?g))"
    using sa st cm Max_date_snoc[OF ne, of c] by simp
  have B: "distinct (map kind (relations ?g))
     \<and> (\<forall>rel \<in> set (relations ?g).
           count rel = int (length (filter (\<lambda>c. kindOf c = Some (kind rel)) (commits ?g))))
     \<and> (\<forall>c' \<in> set (commits ?g). \<forall>k. kindOf c' = Some k \<longrightarrow> k \<in> kind ` set (relations ?g))"
  proof (cases "relationOf (message c)")
    case None
    then have k: "kindOf c = None" by (simp add: kindOf_def)
    have "relations ?g = relations g" using rl None by (simp add: addRelation_def)
    then show ?thesis using di cnt pres k cm by auto
  next
    case (Some kl)
    obtain k lb where kl: "kl = (k, lb)" by (cases kl)
    have k: "kindOf c = Some k" using Some kl by (simp add: kindOf_def)
    show ?thesis
    proof (cases "k \<in> kind ` set (relations g)")
      case False
      then have r: "relations ?g = relations g @ [\<lparr>kind = k, label = lb, count = 1\<rparr>]"
        using rl Some kl find_kind_None[of k "relations g"]
        by (simp add: addRelation_def)
      have none: "filter (\<lambda>c. kindOf c = Some k) (commits g) = []"
        using pres False by (auto simp: filter_empty_conv)
      have old: "rel \<in> set (relations g) \<Longrightarrow> kind rel \<noteq> k" for rel using False by auto
      show ?thesis
        unfolding r cm using di False cnt pres k none old by auto
    next
      case True
      then have "find (\<lambda>item. kind item = k) (relations g) \<noteq> None"
        using find_kind_None[of k "relations g"] by simp
      then have r: "relations ?g = bumpRelation k (relations g)"
        using rl Some kl by (auto simp: addRelation_def)
      have d': "distinct (map kind (relations ?g))" using r di by (simp add: kind_bumpRelation)
      have ks: "kind ` set (relations ?g) = kind ` set (relations g)"
        using arg_cong[OF kind_bumpRelation[of k "relations g"], of set] r by simp
      have c': "count rel' = int (length (filter (\<lambda>c. kindOf c = Some (kind rel')) (commits ?g)))"
        if "rel' \<in> set (relations ?g)" for rel'
        using set_bumpRelation[OF di, of rel' k] that[unfolded r] cnt k cm by auto
      have p': "k' \<in> kind ` set (relations ?g)"
        if "c' \<in> set (commits ?g)" "kindOf c' = Some k'" for c' k'
        using that pres True k ks cm by auto
      from d' c' p' show ?thesis by blast
    qed
  qed
  from A B cm en show ?thesis by (simp add: groupOk_def)
qed

lemma groupOk_flowStep:
  assumes "\<forall>g \<in> set gs. groupOk g"
  shows "\<forall>g \<in> set (flowStep l r c gs). groupOk g"
proof (cases "canAppend r gs c")
  case False
  then show ?thesis using assms by (simp add: flowStep_def groupOk_newGroup)
next
  case True
  then have ne: "gs \<noteq> []" by (simp add: canAppend_def)
  then have "groupOk (last gs)" using assms by simp
  then have "groupOk (appendCommit (last gs) c)" by (rule groupOk_appendCommit)
  moreover have "\<forall>g \<in> set (butlast gs). groupOk g" using assms by (auto dest: in_set_butlastD)
  ultimately show ?thesis using True by (simp add: flowStep_def)
qed

lemma groupOk_fold:
  "\<forall>g \<in> set gs. groupOk g \<Longrightarrow> \<forall>g \<in> set (fold (flowStep l r) cs gs). groupOk g"
proof (induction cs arbitrary: gs)
  case Nil then show ?case by simp
next
  case (Cons c cs)
  show ?case using Cons.IH[OF groupOk_flowStep[OF Cons.prems]] by simp
qed

lemma groupOk_buildFlowGroups: "\<forall>g \<in> set (buildFlowGroups cs l r). groupOk g"
  using groupOk_fold[of "[]" l r cs] by (simp add: buildFlowGroups_def)

text \<open>The word \<open>merge\<close> at the start decides the type, whatever follows the word.\<close>

lemma toLowerChar_letter: "isLowerAscii (toLowerChar c) \<Longrightarrow> isLetter c"
  by (auto simp: toLowerChar_def isLetter_def split: if_splits)

lemma not_word_not_letter: "\<not> isWordChar c \<Longrightarrow> \<not> isLetter c"
  by (simp add: isWordChar_def)

lemma merge_letters: "\<forall>c \<in> set ''merge''. isLowerAscii c"
  by (simp add: isLowerAscii_def)

lemma startsWithWord_letters:
  assumes w: "startsWithWord w msg" and low: "\<forall>c \<in> set w. isLowerAscii c"
  shows "takeWhile isLetter msg = take (length w) msg
         \<and> toLowerCase (takeWhile isLetter msg) = w"
proof -
  from w have len: "length w \<le> length msg" and tl: "toLowerCase (take (length w) msg) = w"
    and bd: "case drop (length w) msg of [] \<Rightarrow> True | c # _ \<Rightarrow> \<not> isWordChar c"
    by (simp_all add: startsWithWord_def startsWithCI_def)
  have all: "\<forall>c \<in> set (take (length w) msg). isLetter c"
  proof
    fix c assume "c \<in> set (take (length w) msg)"
    then have "toLowerChar c \<in> set (toLowerCase (take (length w) msg))"
      by (simp add: toLowerCase_def)
    then have "isLowerAscii (toLowerChar c)" using tl low by simp
    then show "isLetter c" by (rule toLowerChar_letter)
  qed
  have "takeWhile isLetter (take (length w) msg @ drop (length w) msg) = take (length w) msg"
  proof (cases "drop (length w) msg")
    case Nil
    then show ?thesis using all by (simp add: takeWhile_eq_all_conv)
  next
    case (Cons c rest)
    then have "\<not> isLetter c" using bd not_word_not_letter by simp
    then show ?thesis using all Cons by (simp add: takeWhile_append2)
  qed
  then show ?thesis using tl by simp
qed

lemma merge_word_type:
  assumes "startsWithWord ''merge'' msg"
  shows "normalizedType msg = ''merge'' \<and> relationOf msg = Some (Merge, ''Merge'')"
proof -
  have "toLowerCase (takeWhile isLetter msg) = ''merge''"
    using startsWithWord_letters[OF assms merge_letters] by blast
  then have "conventional msg = Some g \<Longrightarrow> toLowerCase g = ''merge''" for g
    by (auto simp: conventional_def Let_def split: if_splits)
  then show ?thesis using assms
    by (auto simp: normalizedType_def relationOf_def split: option.splits)
qed

lemma lower_Merge: "toLowerCase ''Merge'' = ''merge''"
  by code_simp

lemma space_not_word: "\<not> isWordChar CHR '' ''"
  by code_simp

lemma merge_branch_word: "startsWithWord ''merge'' (''Merge branch '' @ rest)"
  by (simp add: startsWithWord_def startsWithCI_def lower_Merge space_not_word)

lemma buildFlowGroups_single: "buildFlowGroups [c] l r = [newGroup l r c]"
  by (simp add: buildFlowGroups_def flowStep_def canAppend_def)

lemma buildFlowGroups_pair:
  "canAppend r (buildFlowGroups [c1] l r) c2 \<Longrightarrow>
     buildFlowGroups [c1, c2] l r = [appendCommit (newGroup l r c1) c2]"
  using buildFlowGroups_snoc[of "[c1]" c2 l r]
  by (simp add: buildFlowGroups_single flowStep_def)

lemma relationOf_label:
  "relationOf m = Some (k, l) \<Longrightarrow> relationOf m' = Some (k, l') \<Longrightarrow> l = l'"
  by (auto simp: relationOf_def split: if_splits)

lemma relationOf_Merge_iff:
  "map_option fst (relationOf m) = Some Merge \<longleftrightarrow> startsWithWord ''merge'' m"
  by (auto simp: relationOf_def split: if_splits)

lemma groupLabelled_newGroup: "groupLabelled (newGroup l r c)"
proof (cases "relationOf (message c)")
  case None
  then show ?thesis by (simp add: groupLabelled_def newGroup_def)
next
  case (Some kl)
  then show ?thesis by (cases kl) (simp add: groupLabelled_def newGroup_def)
qed

lemma groupLabelled_appendCommit:
  assumes lb: "groupLabelled g" and di: "distinct (map kind (relations g))"
    and ty: "typeLabel g = normalizedType (message c)"
  shows "groupLabelled (appendCommit g c)"
proof -
  let ?g = "appendCommit g c"
  have cm: "commits ?g = commits g @ [c]" and tl: "typeLabel ?g = typeLabel g"
    and rl: "relations ?g = addRelation (relationOf (message c)) (relations g)"
    by (simp_all add: appendCommit_def)
  from lb have t: "\<And>x. x \<in> set (commits g) \<Longrightarrow> normalizedType (message x) = typeLabel g"
    and o: "\<And>rel. rel \<in> set (relations g) \<Longrightarrow>
              \<exists>x \<in> set (commits g). relationOf (message x) = Some (kind rel, label rel)"
    by (auto simp: groupLabelled_def)
  have T: "\<forall>x \<in> set (commits ?g). normalizedType (message x) = typeLabel ?g"
    using t ty cm tl by auto
  have O: "\<exists>x \<in> set (commits ?g). relationOf (message x) = Some (kind rel, label rel)"
    if mem: "rel \<in> set (relations ?g)" for rel
  proof (cases "relationOf (message c)")
    case None
    then have "relations ?g = relations g" using rl by (simp add: addRelation_def)
    with mem o[of rel] cm show ?thesis by auto
  next
    case (Some kl)
    obtain k lb' where kl: "kl = (k, lb')" by (cases kl)
    show ?thesis
    proof (cases "find (\<lambda>item. kind item = k) (relations g)")
      case None
      then have "relations ?g = relations g @ [\<lparr>kind = k, label = lb', count = 1\<rparr>]"
        using rl Some kl by (simp add: addRelation_def)
      with mem have "rel \<in> set (relations g) \<or> rel = \<lparr>kind = k, label = lb', count = 1\<rparr>"
        by auto
      then show ?thesis
      proof
        assume "rel \<in> set (relations g)"
        with o[of rel] cm show ?thesis by auto
      next
        assume "rel = \<lparr>kind = k, label = lb', count = 1\<rparr>"
        then show ?thesis using Some kl cm by simp
      qed
    next
      case (Some existing)
      then have "relations ?g = bumpRelation k (relations g)"
        using rl \<open>relationOf (message c) = Some kl\<close> kl by (simp add: addRelation_def)
      with mem have "rel \<in> set (bumpRelation k (relations g))" by simp
      from set_bumpRelation[OF di this] have
        "rel \<in> set (relations g)
         \<or> (\<exists>rel0 \<in> set (relations g). rel = rel0\<lparr>count := count rel0 + 1\<rparr>)" by blast
      then obtain rel0 where
        "rel0 \<in> set (relations g)" "kind rel = kind rel0" "label rel = label rel0"
      proof
        assume "rel \<in> set (relations g)"
        then show ?thesis using that by blast
      next
        assume "\<exists>rel0 \<in> set (relations g). rel = rel0\<lparr>count := count rel0 + 1\<rparr>"
        then obtain rel0 where "rel0 \<in> set (relations g)" "rel = rel0\<lparr>count := count rel0 + 1\<rparr>"
          by blast
        then show ?thesis using that[of rel0] by simp
      qed
      with o[of rel0] cm show ?thesis by auto
    qed
  qed
  from T O show ?thesis by (simp add: groupLabelled_def)
qed

lemma groupLabelled_flowStep:
  assumes "\<forall>g \<in> set gs. groupOk g \<and> groupLabelled g"
  shows "\<forall>g \<in> set (flowStep l r c gs). groupLabelled g"
proof (cases "canAppend r gs c")
  case False
  then show ?thesis using assms by (simp add: flowStep_def groupLabelled_newGroup)
next
  case True
  then have ne: "gs \<noteq> []" and ty: "typeLabel (last gs) = normalizedType (message c)"
    by (simp_all add: canAppend_def)
  from ne assms have "groupOk (last gs)" "groupLabelled (last gs)" by simp_all
  then have "groupLabelled (appendCommit (last gs) c)"
    using ty by (intro groupLabelled_appendCommit) (simp_all add: groupOk_def)
  moreover have "\<forall>g \<in> set (butlast gs). groupLabelled g" using assms by (auto dest: in_set_butlastD)
  ultimately show ?thesis using True by (simp add: flowStep_def)
qed

lemma groups_fold:
  "\<forall>g \<in> set gs. groupOk g \<and> groupLabelled g \<Longrightarrow>
   \<forall>g \<in> set (fold (flowStep l r) cs gs). groupOk g \<and> groupLabelled g"
proof (induction cs arbitrary: gs)
  case Nil then show ?case by simp
next
  case (Cons c cs)
  have "\<forall>g \<in> set (flowStep l r c gs). groupOk g \<and> groupLabelled g"
    using groupOk_flowStep[of gs l r c] groupLabelled_flowStep[OF Cons.prems, of l r c] Cons.prems
    by blast
  from Cons.IH[OF this] show ?case by simp
qed

lemma groups_buildFlowGroups:
  "\<forall>g \<in> set (buildFlowGroups cs l r). groupOk g \<and> groupLabelled g"
  using groups_fold[of "[]" l r cs] by (simp add: buildFlowGroups_def)

text \<open>The entry of a commit with a relation, in full.\<close>

lemma relation_entry_present:
  assumes ok: "groupOk g" and lb: "groupLabelled g"
    and x: "x \<in> set (commits g)" and rel: "relationOf (message x) = Some (k, l)"
  shows "\<lparr>kind = k, label = l,
          count = int (length (filter (\<lambda>y. map_option fst (relationOf (message y)) = Some k)
                                 (commits g)))\<rparr> \<in> set (relations g)"
proof -
  have "kindOf x = Some k" using rel by (simp add: kindOf_def)
  with ok x have "k \<in> kind ` set (relations g)" unfolding groupOk_def by blast
  then obtain e where e: "e \<in> set (relations g)" "kind e = k" by blast
  from ok e(1) have "count e = int (length (filter (\<lambda>c. kindOf c = Some (kind e)) (commits g)))"
    unfolding groupOk_def by blast
  then have c: "count e = int (length (filter (\<lambda>y. map_option fst (relationOf (message y)) = Some k)
                                 (commits g)))"
    using e(2) by (simp add: kindOf_def)
  from lb e(1) have "\<exists>y \<in> set (commits g). relationOf (message y) = Some (kind e, label e)"
    unfolding groupLabelled_def by blast
  then obtain y :: CommitSummary where "relationOf (message y) = Some (kind e, label e)" by blast
  then have "relationOf (message y) = Some (k, label e)" using e(2) by simp
  from relationOf_label[OF this rel] have "label e = l" .
  with e c have "e = \<lparr>kind = k, label = l,
          count = int (length (filter (\<lambda>y. map_option fst (relationOf (message y)) = Some k)
                                 (commits g)))\<rparr>" by simp
  with e(1) show ?thesis by simp
qed

lemma commit_in_some_group:
  assumes "x \<in> set cs"
  shows "\<exists>g \<in> set (buildFlowGroups cs l r). x \<in> set (commits g)"
proof -
  have "concat (map commits (buildFlowGroups cs l r)) = cs"
    using concat_fold_flowStep[of l r cs "[]"] by (simp add: buildFlowGroups_def)
  then have "x \<in> set (concat (map commits (buildFlowGroups cs l r)))" using assms by simp
  then show ?thesis by auto
qed

lemma merge_count_filter:
  "filter (\<lambda>y. map_option fst (relationOf (message y)) = Some Merge) cs
     = filter (\<lambda>y. startsWithWord ''merge'' (message y)) cs"
  by (simp only: relationOf_Merge_iff)

lemma group_facts:
  assumes g: "g \<in> set (buildFlowGroups cs l r)"
  shows "commits g \<noteq> [] \<and> endedAt g = date (last (commits g))
       \<and> startedAt g = Max (date ` set (commits g))
       \<and> distinct (map kind (relations g))
       \<and> (\<forall>rel \<in> set (relations g).
             count rel = int (length (filter
                (\<lambda>x. map_option fst (relationOf (message x)) = Some (kind rel)) (commits g)))
             \<and> (\<exists>x \<in> set (commits g). relationOf (message x) = Some (kind rel, label rel)))
       \<and> (\<forall>x \<in> set (commits g).
             typeLabel g = normalizedType (message x)
             \<and> (\<forall>k lb. relationOf (message x) = Some (k, lb) \<longrightarrow>
                   \<lparr>kind = k, label = lb,
                    count = int (length (filter
                      (\<lambda>y. map_option fst (relationOf (message y)) = Some k) (commits g)))\<rparr>
                   \<in> set (relations g))
             \<and> (startsWithWord ''merge'' (message x) \<longrightarrow>
                   typeLabel g = ''merge''
                   \<and> \<lparr>kind = Merge, label = ''Merge'',
                      count = int (length (filter
                        (\<lambda>y. startsWithWord ''merge'' (message y)) (commits g)))\<rparr>
                     \<in> set (relations g)))"
proof -
  from groups_buildFlowGroups[of cs l r] g have ok: "groupOk g" and lb: "groupLabelled g"
    by blast+
  have A: "commits g \<noteq> [] \<and> endedAt g = date (last (commits g))
       \<and> startedAt g = Max (date ` set (commits g))
       \<and> distinct (map kind (relations g))"
    using ok by (simp add: groupOk_def)
  have B: "\<forall>rel \<in> set (relations g).
             count rel = int (length (filter
                (\<lambda>x. map_option fst (relationOf (message x)) = Some (kind rel)) (commits g)))
             \<and> (\<exists>x \<in> set (commits g). relationOf (message x) = Some (kind rel, label rel))"
    using ok lb by (simp add: groupOk_def groupLabelled_def kindOf_def)
  have C: "typeLabel g = normalizedType (message x)
             \<and> (\<forall>k lb. relationOf (message x) = Some (k, lb) \<longrightarrow>
                   \<lparr>kind = k, label = lb,
                    count = int (length (filter
                      (\<lambda>y. map_option fst (relationOf (message y)) = Some k) (commits g)))\<rparr>
                   \<in> set (relations g))
             \<and> (startsWithWord ''merge'' (message x) \<longrightarrow>
                   typeLabel g = ''merge''
                   \<and> \<lparr>kind = Merge, label = ''Merge'',
                      count = int (length (filter
                        (\<lambda>y. startsWithWord ''merge'' (message y)) (commits g)))\<rparr>
                     \<in> set (relations g))"
    if x: "x \<in> set (commits g)" for x
  proof -
    have ty: "typeLabel g = normalizedType (message x)"
      using lb x by (simp add: groupLabelled_def)
    have en: "\<forall>k lb. relationOf (message x) = Some (k, lb) \<longrightarrow>
                   \<lparr>kind = k, label = lb,
                    count = int (length (filter
                      (\<lambda>y. map_option fst (relationOf (message y)) = Some k) (commits g)))\<rparr>
                   \<in> set (relations g)"
      using relation_entry_present[OF ok lb x] by blast
    have mg: "startsWithWord ''merge'' (message x) \<longrightarrow>
                   typeLabel g = ''merge''
                   \<and> \<lparr>kind = Merge, label = ''Merge'',
                      count = int (length (filter
                        (\<lambda>y. startsWithWord ''merge'' (message y)) (commits g)))\<rparr>
                     \<in> set (relations g)"
    proof
      assume w: "startsWithWord ''merge'' (message x)"
      from merge_word_type[OF w] have t: "normalizedType (message x) = ''merge''"
        and r: "relationOf (message x) = Some (Merge, ''Merge'')" by simp_all
      from relation_entry_present[OF ok lb x r]
      have "\<lparr>kind = Merge, label = ''Merge'',
                      count = int (length (filter
                        (\<lambda>y. startsWithWord ''merge'' (message y)) (commits g)))\<rparr>
                     \<in> set (relations g)"
        by (simp only: merge_count_filter)
      moreover have "typeLabel g = ''merge''" using ty t by simp
      ultimately show "typeLabel g = ''merge''
                   \<and> \<lparr>kind = Merge, label = ''Merge'',
                      count = int (length (filter
                        (\<lambda>y. startsWithWord ''merge'' (message y)) (commits g)))\<rparr>
                     \<in> set (relations g)"
        by (rule conjI[rotated])
    qed
    from ty en mg show ?thesis by blast
  qed
  from A B C show ?thesis by blast
qed

text \<open>
  Claim C8, as amended. For every input, in every group returned by \<open>buildFlowGroups\<close>:
  \<open>endedAt\<close> is the date of the last commit of the group and \<open>startedAt\<close> is the greatest
  date in the group; the relation entries have distinct kinds, each entry stems from a
  commit of the group, and its count is the number of commits of the group with that
  kind; every commit has the type of its group, and a commit with a relation finds its
  entry in the group, with its kind, its label and that count. Every input commit is in
  a group. Appending a commit sets \<open>endedAt\<close> to its date and \<open>startedAt\<close> to the maximum
  of the old value and its date. A commit whose message begins with the word \<open>merge\<close> in
  any letter case, followed by the end of the message or by a character that is not a
  letter, digit or underscore (as in \<open>Merge branch ...\<close>), has the type \<open>merge\<close>, and its
  group holds the entry \<open>(merge, Merge, n)\<close> with \<open>n\<close> the number of such commits in the
  group: 1 for a group it starts, 2 once a second such commit has been appended.
\<close>

theorem append_updates_and_merge_relations:
  "(\<forall>g \<in> set (buildFlowGroups cs laneByHash resolveBranchLabel).
       commits g \<noteq> [] \<and> endedAt g = date (last (commits g))
       \<and> startedAt g = Max (date ` set (commits g))
       \<and> distinct (map kind (relations g))
       \<and> (\<forall>rel \<in> set (relations g).
             count rel = int (length (filter
                (\<lambda>x. map_option fst (relationOf (message x)) = Some (kind rel)) (commits g)))
             \<and> (\<exists>x \<in> set (commits g). relationOf (message x) = Some (kind rel, label rel)))
       \<and> (\<forall>x \<in> set (commits g).
             typeLabel g = normalizedType (message x)
             \<and> (\<forall>k lb. relationOf (message x) = Some (k, lb) \<longrightarrow>
                   \<lparr>kind = k, label = lb,
                    count = int (length (filter
                      (\<lambda>y. map_option fst (relationOf (message y)) = Some k) (commits g)))\<rparr>
                   \<in> set (relations g))
             \<and> (startsWithWord ''merge'' (message x) \<longrightarrow>
                   typeLabel g = ''merge''
                   \<and> \<lparr>kind = Merge, label = ''Merge'',
                      count = int (length (filter
                        (\<lambda>y. startsWithWord ''merge'' (message y)) (commits g)))\<rparr>
                     \<in> set (relations g))))
   \<and> (\<forall>x \<in> set cs. \<exists>g \<in> set (buildFlowGroups cs laneByHash resolveBranchLabel).
         x \<in> set (commits g))
   \<and> (canAppend resolveBranchLabel (buildFlowGroups cs laneByHash resolveBranchLabel) c \<longrightarrow>
        endedAt (last (buildFlowGroups (cs @ [c]) laneByHash resolveBranchLabel)) = date c
        \<and> startedAt (last (buildFlowGroups (cs @ [c]) laneByHash resolveBranchLabel))
            = max (startedAt (last (buildFlowGroups cs laneByHash resolveBranchLabel))) (date c))
   \<and> (startsWithWord ''merge'' (message c) \<longrightarrow>
        normalizedType (message c) = ''merge''
        \<and> map typeLabel (buildFlowGroups [c] laneByHash resolveBranchLabel) = [''merge'']
        \<and> map relations (buildFlowGroups [c] laneByHash resolveBranchLabel)
            = [[\<lparr>kind = Merge, label = ''Merge'', count = 1\<rparr>]])
   \<and> (startsWithWord ''merge'' (message c1) \<and> startsWithWord ''merge'' (message c2)
        \<and> canAppend resolveBranchLabel (buildFlowGroups [c1] laneByHash resolveBranchLabel) c2 \<longrightarrow>
        map relations (buildFlowGroups [c1, c2] laneByHash resolveBranchLabel)
            = [[\<lparr>kind = Merge, label = ''Merge'', count = 2\<rparr>]])
   \<and> startsWithWord ''merge'' (''Merge branch '' @ rest)"
proof -
  let ?gs = "buildFlowGroups cs laneByHash resolveBranchLabel"
  let ?gs' = "buildFlowGroups (cs @ [c]) laneByHash resolveBranchLabel"
  have A: "\<forall>g \<in> set (buildFlowGroups cs laneByHash resolveBranchLabel).
       commits g \<noteq> [] \<and> endedAt g = date (last (commits g))
       \<and> startedAt g = Max (date ` set (commits g))
       \<and> distinct (map kind (relations g))
       \<and> (\<forall>rel \<in> set (relations g).
             count rel = int (length (filter
                (\<lambda>x. map_option fst (relationOf (message x)) = Some (kind rel)) (commits g)))
             \<and> (\<exists>x \<in> set (commits g). relationOf (message x) = Some (kind rel, label rel)))
       \<and> (\<forall>x \<in> set (commits g).
             typeLabel g = normalizedType (message x)
             \<and> (\<forall>k lb. relationOf (message x) = Some (k, lb) \<longrightarrow>
                   \<lparr>kind = k, label = lb,
                    count = int (length (filter
                      (\<lambda>y. map_option fst (relationOf (message y)) = Some k) (commits g)))\<rparr>
                   \<in> set (relations g))
             \<and> (startsWithWord ''merge'' (message x) \<longrightarrow>
                   typeLabel g = ''merge''
                   \<and> \<lparr>kind = Merge, label = ''Merge'',
                      count = int (length (filter
                        (\<lambda>y. startsWithWord ''merge'' (message y)) (commits g)))\<rparr>
                     \<in> set (relations g)))"
    by (rule ballI) (rule group_facts)
  have A': "\<forall>x \<in> set cs. \<exists>g \<in> set ?gs. x \<in> set (commits g)"
    using commit_in_some_group[of _ cs laneByHash resolveBranchLabel] by blast
  have B: "canAppend resolveBranchLabel ?gs c \<longrightarrow>
        endedAt (last ?gs') = date c
        \<and> startedAt (last ?gs') = max (startedAt (last ?gs)) (date c)"
    using buildFlowGroups_snoc[of cs c laneByHash resolveBranchLabel]
    by (simp add: flowStep_def appendCommit_def)
  have C: "startsWithWord ''merge'' (message c) \<longrightarrow>
        normalizedType (message c) = ''merge''
        \<and> map typeLabel (buildFlowGroups [c] laneByHash resolveBranchLabel) = [''merge'']
        \<and> map relations (buildFlowGroups [c] laneByHash resolveBranchLabel)
            = [[\<lparr>kind = Merge, label = ''Merge'', count = 1\<rparr>]]"
    using merge_word_type[of "message c"]
    by (simp add: buildFlowGroups_single newGroup_def)
  have D: "startsWithWord ''merge'' (message c1) \<and> startsWithWord ''merge'' (message c2)
        \<and> canAppend resolveBranchLabel (buildFlowGroups [c1] laneByHash resolveBranchLabel) c2 \<longrightarrow>
        map relations (buildFlowGroups [c1, c2] laneByHash resolveBranchLabel)
            = [[\<lparr>kind = Merge, label = ''Merge'', count = 2\<rparr>]]"
    using merge_word_type[of "message c1"] merge_word_type[of "message c2"]
          buildFlowGroups_pair[of resolveBranchLabel c1 laneByHash c2]
    by (auto simp: appendCommit_def newGroup_def addRelation_def)
  show ?thesis
    apply (rule conjI, rule A)
    apply (rule conjI, rule A')
    apply (rule conjI, rule B)
    apply (rule conjI, rule C)
    apply (rule conjI, rule D)
    apply (rule merge_branch_word)
    done
qed

lemma mergePair_facts:
  "startsWithWord ''merge'' ''Merge branch feature into main''"
  "startsWithWord ''merge'' ''Merge pull request 7''"
  by code_simp+

theorem append_updates_and_merge_relations_witness:
  "map relations (buildFlowGroups mergePair Map.empty (\<lambda>_. ''main''))
     = [[\<lparr>kind = Merge, label = ''Merge'', count = 2\<rparr>]]
   \<and> endedAt (last (buildFlowGroups mergePair Map.empty (\<lambda>_. ''main''))) = 1700000000000
   \<and> startedAt (last (buildFlowGroups mergePair Map.empty (\<lambda>_. ''main''))) = 1700003600000
   \<and> commits (last (buildFlowGroups mergePair Map.empty (\<lambda>_. ''main''))) \<noteq> []
   \<and> (\<exists>g \<in> set (buildFlowGroups featThenMerge Map.empty (\<lambda>_. ''main'')).
         commitOf ''f1'' ''Merge branch topic'' 1700000000000 [''f0'', ''t0''] \<in> set (commits g)
         \<and> typeLabel g = ''merge''
         \<and> \<lparr>kind = Merge, label = ''Merge'',
            count = int (length (filter (\<lambda>y. startsWithWord ''merge'' (message y)) (commits g)))\<rparr>
           \<in> set (relations g))"
proof -
  let ?c1 = "commitOf ''m2'' ''Merge branch feature into main'' 1700003600000 [''m1'', ''f1'']"
  let ?c2 = "commitOf ''m1'' ''Merge pull request 7'' 1700000000000 [''m0'', ''f0'']"
  let ?r = "\<lambda>_::CommitSummary. ''main''"
  have w: "startsWithWord ''merge'' (message ?c1)" "startsWithWord ''merge'' (message ?c2)"
    using mergePair_facts by (simp_all add: commitOf_def)
  have ty: "normalizedType (message ?c1) = normalizedType (message ?c2)"
    using merge_word_type w by simp
  have one: "buildFlowGroups [?c1] Map.empty ?r = [newGroup Map.empty ?r ?c1]"
    by (rule buildFlowGroups_single)
  have ca: "canAppend ?r (buildFlowGroups [?c1] Map.empty ?r) ?c2"
    unfolding one using ty
    by (simp add: canAppend_def newGroup_def FLOW_MAX_GROUP_SIZE_def FLOW_WINDOW_MS_def)
       (simp add: commitOf_def)
  note T = append_updates_and_merge_relations[where cs = "[?c1]" and laneByHash = Map.empty
      and resolveBranchLabel = ?r and c = ?c2 and ?c1.0 = ?c1 and ?c2.0 = ?c2 and rest = "[]"]
  note T3 = conjunct1[OF conjunct2[OF conjunct2[OF T]]]
  note T5 = conjunct1[OF conjunct2[OF conjunct2[OF conjunct2[OF conjunct2[OF T]]]]]
  have rel: "map relations (buildFlowGroups [?c1, ?c2] Map.empty ?r)
     = [[\<lparr>kind = Merge, label = ''Merge'', count = 2\<rparr>]]"
    using T5 w ca by simp
  have en: "endedAt (last (buildFlowGroups [?c1, ?c2] Map.empty ?r)) = date ?c2"
    and st: "startedAt (last (buildFlowGroups [?c1, ?c2] Map.empty ?r))
             = max (startedAt (last (buildFlowGroups [?c1] Map.empty ?r))) (date ?c2)"
    using T3 ca by simp_all
  have ne0: "buildFlowGroups [?c1, ?c2] Map.empty ?r \<noteq> []" using rel by auto
  then have lastin: "last (buildFlowGroups [?c1, ?c2] Map.empty ?r)
               \<in> set (buildFlowGroups [?c1, ?c2] Map.empty ?r)" by simp
  note U = append_updates_and_merge_relations[where cs = "[?c1, ?c2]" and laneByHash = Map.empty
      and resolveBranchLabel = ?r]
  have ne: "commits (last (buildFlowGroups [?c1, ?c2] Map.empty ?r)) \<noteq> []"
    using bspec[OF conjunct1[OF U] lastin] by (rule conjunct1)
  have st': "startedAt (last (buildFlowGroups [?c1, ?c2] Map.empty ?r)) = 1700003600000"
    using st unfolding one by (simp add: newGroup_def commitOf_def)
  have en': "endedAt (last (buildFlowGroups [?c1, ?c2] Map.empty ?r)) = 1700000000000"
    using en by (simp add: commitOf_def)
  let ?m = "commitOf ''f1'' ''Merge branch topic'' 1700000000000 [''f0'', ''t0'']"
  note V = append_updates_and_merge_relations[where cs = featThenMerge and laneByHash = Map.empty
      and resolveBranchLabel = ?r and rest = "''topic''"]
  note V1 = conjunct1[OF V]
  note V2 = conjunct1[OF conjunct2[OF V]]
  note V6 = conjunct2[OF conjunct2[OF conjunct2[OF conjunct2[OF conjunct2[OF V]]]]]
  have mw: "startsWithWord ''merge'' (message ?m)" using V6 by (simp add: commitOf_def)
  have "?m \<in> set featThenMerge" by (simp add: featThenMerge_def)
  from bspec[OF V2 this] obtain g where
    g: "g \<in> set (buildFlowGroups featThenMerge Map.empty ?r)" and x: "?m \<in> set (commits g)"
    by blast
  note G = conjunct2[OF conjunct2[OF conjunct2[OF conjunct2[OF conjunct2[OF bspec[OF V1 g]]]]]]
  from bspec[OF G x] mw have
    "typeLabel g = ''merge''
     \<and> \<lparr>kind = Merge, label = ''Merge'',
        count = int (length (filter (\<lambda>y. startsWithWord ''merge'' (message y)) (commits g)))\<rparr>
       \<in> set (relations g)" by blast
  with g x have ex: "\<exists>g \<in> set (buildFlowGroups featThenMerge Map.empty ?r).
         ?m \<in> set (commits g)
         \<and> typeLabel g = ''merge''
         \<and> \<lparr>kind = Merge, label = ''Merge'',
            count = int (length (filter (\<lambda>y. startsWithWord ''merge'' (message y)) (commits g)))\<rparr>
           \<in> set (relations g)" by blast
  from rel en' st' ne ex show ?thesis by (simp add: mergePair_def)
qed

lemma featThenMerge_groups:
  "map relations (buildFlowGroups featThenMerge Map.empty (\<lambda>_. ''main''))
     = [[], [\<lparr>kind = Merge, label = ''Merge'', count = 1\<rparr>]]"
  by code_simp

text \<open>
  Claim C8 as stated fails: a message that begins with \<open>Merge\<close> as part of the word
  \<open>Merged\<close>, and does not match the conventional-commit pattern, has the type \<open>commit\<close>
  and adds no relation entry.
\<close>

theorem merged_prefix_counterexample:
  "take 5 (message mergedPR) = ''Merge''
   \<and> conventional (message mergedPR) = None
   \<and> map typeLabel (buildFlowGroups [mergedPR] Map.empty (\<lambda>_. ''main'')) = [''commit'']
   \<and> map relations (buildFlowGroups [mergedPR] Map.empty (\<lambda>_. ''main'')) = [[]]"
  by code_simp

end
